theory Spec2Isabelle
  imports Main "HOL-Library.Multiset" "HOL-Library.Signed_Division"
begin

section \<open>The data model of \<open>priority-queue.h\<close>\<close>

text \<open>
  A node pairs a payload with a priority; both are C \<open>int\<close>s. The library only copies
  and compares them, so they are modelled by unbounded integers (every \<open>int\<close> is one,
  and no arithmetic that could wrap is ever done on them).
\<close>

record PQ_Node =
  data :: int
  priority :: int

text \<open>
  The queue holds two \<open>int\<close> counters and an array of pointers to nodes. A node is never
  written after it has been allocated, so a slot that holds a pointer is modelled by the node
  it points to; a slot whose content is indeterminate (fresh from \<open>malloc\<close> or
  \<open>realloc\<close>) is \<open>None\<close>. The length of the list is the number of slots of the
  allocated block. Indices are \<open>int\<close>, as in the source; index arithmetic is assumed not to
  exceed the range of a C \<open>int\<close>. Allocation is assumed to succeed.
\<close>

record PQ_pq =
  current_size :: int
  capacity :: int
  heap :: "PQ_Node option list"

text \<open>
  The source has no error value: what goes wrong in it is undefined behaviour, which the model
  makes a result. \<open>OutOfBounds\<close> is an access outside the allocated block,
  \<open>UninitialisedRead\<close> the use of an indeterminate slot. \<open>EmptyQueueError\<close> is the
  error the specification names; no statement of the source produces it.
\<close>

datatype fault = OutOfBounds | UninitialisedRead | EmptyQueueError

definition PQ_INITIAL_SIZE :: int where
  "PQ_INITIAL_SIZE = 10"

definition PQ_INCREMENT_SIZE :: int where
  "PQ_INCREMENT_SIZE = 10"

section \<open>Memory accesses\<close>

text \<open>
  \<open>q->heap[i]\<close> as a node: the slot is read and the pointer in it followed. Where the
  source only copies the pointer (\<open>_swap\<close>, the first two statements of
  \<open>_PQ_dequeue\<close>), an indeterminate slot is a fault as well.
\<close>

definition rd :: "PQ_pq \<Rightarrow> int \<Rightarrow> fault + PQ_Node" where
  "rd q i =
     (if i < 0 \<or> int (length (heap q)) \<le> i then Inl OutOfBounds
      else (case heap q ! nat i of None \<Rightarrow> Inl UninitialisedRead | Some n \<Rightarrow> Inr n))"

text \<open>\<open>q->heap[i] = n\<close>.\<close>

definition wr :: "PQ_pq \<Rightarrow> int \<Rightarrow> PQ_Node \<Rightarrow> fault + PQ_pq" where
  "wr q i n =
     (if i < 0 \<or> int (length (heap q)) \<le> i then Inl OutOfBounds
      else Inr (q\<lparr>heap := (heap q)[nat i := Some n]\<rparr>))"

text \<open>\<open>arr[i]\<close> of the caller's array in \<open>PQ_heapify\<close>.\<close>

definition arr_rd :: "PQ_Node list \<Rightarrow> int \<Rightarrow> fault + PQ_Node" where
  "arr_rd arr i =
     (if i < 0 \<or> int (length arr) \<le> i then Inl OutOfBounds else Inr (arr ! nat i))"

text \<open>\<open>malloc(sizeof(PQ_Node*) * n)\<close>: a block of \<open>n\<close> indeterminate slots.\<close>

definition malloc_slots :: "int \<Rightarrow> PQ_Node option list" where
  "malloc_slots n = replicate (nat n) None"

text \<open>
  \<open>realloc(h, n * sizeof(PQ_Node*))\<close>: the old content up to the smaller of the two
  sizes, the rest indeterminate.
\<close>

definition realloc_slots :: "PQ_Node option list \<Rightarrow> int \<Rightarrow> PQ_Node option list" where
  "realloc_slots h n = take (nat n) h @ replicate (nat n - length h) None"

section \<open>The functions of \<open>priority-queue.c\<close>\<close>

text \<open>\<open>_parent\<close>: C division truncates towards zero.\<close>

definition parent :: "int \<Rightarrow> int" where
  "parent i = (i - 1) sdiv 2"

text \<open>\<open>_left_child\<close>\<close>

definition left_child :: "int \<Rightarrow> int" where
  "left_child i = 2 * i + 1"

text \<open>\<open>_right_child\<close>\<close>

definition right_child :: "int \<Rightarrow> int" where
  "right_child i = 2 * i + 2"

text \<open>
  \<open>_swap(&(q->heap[a]), &(q->heap[b]))\<close>: \<open>tmp = *a; *a = *b; *b = tmp\<close>. Both
  callers have just read the priorities of the two nodes.
\<close>

definition swap :: "int \<Rightarrow> int \<Rightarrow> PQ_pq \<Rightarrow> fault + PQ_pq" where
  "swap a b q =
     (case rd q a of Inl e \<Rightarrow> Inl e | Inr tmp \<Rightarrow>
      (case rd q b of Inl e \<Rightarrow> Inl e | Inr nb \<Rightarrow>
       (case wr q a nb of Inl e \<Rightarrow> Inl e | Inr q1 \<Rightarrow> wr q1 b tmp)))"

text \<open>\<open>_shift_up\<close>: the \<open>while\<close> loop as a recursion on the index.\<close>

function shift_up :: "int \<Rightarrow> PQ_pq \<Rightarrow> fault + PQ_pq" where
  "shift_up i q =
     (if i > 0 then
        (case rd q (parent i) of Inl e \<Rightarrow> Inl e | Inr a \<Rightarrow>
         (case rd q i of Inl e \<Rightarrow> Inl e | Inr b \<Rightarrow>
            if priority a > priority b then
              (case swap (parent i) i q of Inl e \<Rightarrow> Inl e | Inr q1 \<Rightarrow> shift_up (parent i) q1)
            else Inr q))
      else Inr q)"
  by pat_completeness auto
termination
  by (relation "measure (\<lambda>(i, q). nat i)")
     (auto simp: parent_def signed_divide_int_def sgn_if)

text \<open>
  \<open>_shift_down\<close>. The two guarded comparisons compute \<open>max_i\<close> in turn (\<open>m1\<close> after
  the left child, \<open>m2\<close> after the right one); the guards are \<open>l <= q->current_size\<close>
  and \<open>r <= q->current_size\<close>, as written.
\<close>

function shift_down :: "int \<Rightarrow> PQ_pq \<Rightarrow> fault + PQ_pq" where
  "shift_down i q =
     (case (if left_child i \<le> current_size q then
              (case rd q (left_child i) of Inl e \<Rightarrow> Inl e | Inr a \<Rightarrow>
               (case rd q i of Inl e \<Rightarrow> Inl e | Inr b \<Rightarrow>
                  Inr (if priority a < priority b then left_child i else i)))
            else Inr i) of
        Inl e \<Rightarrow> Inl e
      | Inr m1 \<Rightarrow>
        (case (if right_child i \<le> current_size q then
                 (case rd q (right_child i) of Inl e \<Rightarrow> Inl e | Inr a \<Rightarrow>
                  (case rd q m1 of Inl e \<Rightarrow> Inl e | Inr b \<Rightarrow>
                     Inr (if priority a < priority b then right_child i else m1)))
               else Inr m1) of
           Inl e \<Rightarrow> Inl e
         | Inr m2 \<Rightarrow>
             if i \<noteq> m2 then
               (case swap i m2 q of Inl e \<Rightarrow> Inl e | Inr q1 \<Rightarrow> shift_down m2 q1)
             else Inr q))"
  by pat_completeness auto
termination
  by (relation "measure (\<lambda>(i, q). nat (current_size q + 1 - i))")
     (auto simp: left_child_def right_child_def rd_def swap_def wr_def
           split: if_splits sum.splits option.splits)

text \<open>
  \<open>_check_size\<close>. The failure branch of \<open>realloc\<close> (\<open>exit(1)\<close>) is not modelled.
\<close>

definition check_size :: "PQ_pq \<Rightarrow> PQ_pq" where
  "check_size q =
     (if current_size q + 1 > capacity q then
        q\<lparr>heap := realloc_slots (heap q) (capacity q + PQ_INCREMENT_SIZE),
          current_size := capacity q,
          capacity := capacity q + PQ_INCREMENT_SIZE\<rparr>
      else q)"

text \<open>\<open>PQ_enqueue\<close>\<close>

definition PQ_enqueue :: "PQ_pq \<Rightarrow> int \<Rightarrow> int \<Rightarrow> fault + PQ_pq" where
  "PQ_enqueue q d p =
     (let to_add = \<lparr>data = d, priority = p\<rparr>;
          q1 = check_size q
      in case wr q1 (current_size q1) to_add of Inl e \<Rightarrow> Inl e | Inr q2 \<Rightarrow>
         (case shift_up (current_size q2) q2 of Inl e \<Rightarrow> Inl e | Inr q3 \<Rightarrow>
            Inr (q3\<lparr>current_size := current_size q3 + 1\<rparr>)))"

text \<open>\<open>PQ_create\<close>\<close>

definition PQ_create :: PQ_pq where
  "PQ_create =
     \<lparr>current_size = 0, capacity = PQ_INITIAL_SIZE, heap = malloc_slots PQ_INITIAL_SIZE\<rparr>"

text \<open>
  \<open>PQ_peek\<close>. There is no test of \<open>current_size\<close>. The function stores nothing;
  the queue is returned beside the payload so that this can be stated.
\<close>

definition PQ_peek :: "PQ_pq \<Rightarrow> fault + (int \<times> PQ_pq)" where
  "PQ_peek q = (case rd q 0 of Inl e \<Rightarrow> Inl e | Inr n \<Rightarrow> Inr (data n, q))"

text \<open>
  \<open>_PQ_dequeue\<close>, which returns the removed node. There is no test of
  \<open>current_size\<close>: with \<open>current_size = 0\<close> the second read is \<open>heap[-1]\<close>.
\<close>

definition PQ_dequeue_node :: "PQ_pq \<Rightarrow> fault + (PQ_Node \<times> PQ_pq)" where
  "PQ_dequeue_node q =
     (case rd q 0 of Inl e \<Rightarrow> Inl e | Inr n \<Rightarrow>
      (case rd q (current_size q - 1) of Inl e \<Rightarrow> Inl e | Inr lst \<Rightarrow>
       (case wr q 0 lst of Inl e \<Rightarrow> Inl e | Inr q1 \<Rightarrow>
        (case shift_down 0 (q1\<lparr>current_size := current_size q1 - 1\<rparr>) of
           Inl e \<Rightarrow> Inl e
         | Inr q2 \<Rightarrow> Inr (n, q2)))))"

text \<open>
  \<open>PQ_dequeue\<close>. \<open>free(node)\<close> releases the removed node, which no slot below
  \<open>current_size\<close> points to any more; it is not modelled.
\<close>

definition PQ_dequeue :: "PQ_pq \<Rightarrow> fault + (int \<times> PQ_pq)" where
  "PQ_dequeue q =
     (case PQ_dequeue_node q of Inl e \<Rightarrow> Inl e | Inr (node, q1) \<Rightarrow> Inr (data node, q1))"

text \<open>The \<open>for\<close> loop of \<open>PQ_heapify\<close>, from index \<open>i\<close> on.\<close>

function heapify_loop :: "PQ_Node list \<Rightarrow> int \<Rightarrow> int \<Rightarrow> PQ_pq \<Rightarrow> fault + PQ_pq" where
  "heapify_loop arr sz i pq =
     (if i < sz then
        (case arr_rd arr i of Inl e \<Rightarrow> Inl e | Inr n \<Rightarrow>
         (case PQ_enqueue pq (data n) (priority n) of Inl e \<Rightarrow> Inl e | Inr pq1 \<Rightarrow>
            heapify_loop arr sz (i + 1) pq1))
      else Inr pq)"
  by pat_completeness auto
termination
  by (relation "measure (\<lambda>(arr, sz, i, pq). nat (sz - i))") auto

text \<open>\<open>PQ_heapify\<close>; \<open>sz\<close> is the parameter \<open>size\<close>.\<close>

definition PQ_heapify :: "PQ_Node list \<Rightarrow> int \<Rightarrow> fault + PQ_pq" where
  "PQ_heapify arr sz =
     heapify_loop arr sz 0 (PQ_create\<lparr>capacity := sz, heap := malloc_slots sz\<rparr>)"

section \<open>Repeated calls, as the callers make them\<close>

text \<open>
  The test program fills a queue by enqueuing the nodes of an array in turn
  (\<open>_random_n_pq\<close>) and empties it by calling \<open>PQ_dequeue\<close> or \<open>_PQ_dequeue\<close> a given
  number of times (\<open>test_high_level_dequeue\<close>, \<open>test_large\<close>).
\<close>

fun enqueue_all :: "PQ_Node list \<Rightarrow> PQ_pq \<Rightarrow> fault + PQ_pq" where
  "enqueue_all [] q = Inr q"
| "enqueue_all (n # ns) q =
     (case PQ_enqueue q (data n) (priority n) of Inl e \<Rightarrow> Inl e | Inr q1 \<Rightarrow> enqueue_all ns q1)"

fun dequeue_n :: "nat \<Rightarrow> PQ_pq \<Rightarrow> fault + (int list \<times> PQ_pq)" where
  "dequeue_n 0 q = Inr ([], q)"
| "dequeue_n (Suc k) q =
     (case PQ_dequeue q of Inl e \<Rightarrow> Inl e | Inr (d, q1) \<Rightarrow>
      (case dequeue_n k q1 of Inl e \<Rightarrow> Inl e | Inr (ds, q2) \<Rightarrow> Inr (d # ds, q2)))"

fun dequeue_nodes_n :: "nat \<Rightarrow> PQ_pq \<Rightarrow> fault + (PQ_Node list \<times> PQ_pq)" where
  "dequeue_nodes_n 0 q = Inr ([], q)"
| "dequeue_nodes_n (Suc k) q =
     (case PQ_dequeue_node q of Inl e \<Rightarrow> Inl e | Inr (n, q1) \<Rightarrow>
      (case dequeue_nodes_n k q1 of Inl e \<Rightarrow> Inl e | Inr (ns, q2) \<Rightarrow> Inr (n # ns, q2)))"

section \<open>The variant of sift-down that the specification describes\<close>

text \<open>
  The specification's sift-down examines a child only if its index lies within
  \<open>[0, count - 1]\<close>. This is that procedure: \<open>_shift_down\<close> with the two guards
  replaced by \<open>l <= q->current_size - 1\<close> and \<open>r <= q->current_size - 1\<close>.
\<close>

function shift_down_strict :: "int \<Rightarrow> PQ_pq \<Rightarrow> fault + PQ_pq" where
  "shift_down_strict i q =
     (case (if left_child i \<le> current_size q - 1 then
              (case rd q (left_child i) of Inl e \<Rightarrow> Inl e | Inr a \<Rightarrow>
               (case rd q i of Inl e \<Rightarrow> Inl e | Inr b \<Rightarrow>
                  Inr (if priority a < priority b then left_child i else i)))
            else Inr i) of
        Inl e \<Rightarrow> Inl e
      | Inr m1 \<Rightarrow>
        (case (if right_child i \<le> current_size q - 1 then
                 (case rd q (right_child i) of Inl e \<Rightarrow> Inl e | Inr a \<Rightarrow>
                  (case rd q m1 of Inl e \<Rightarrow> Inl e | Inr b \<Rightarrow>
                     Inr (if priority a < priority b then right_child i else m1)))
               else Inr m1) of
           Inl e \<Rightarrow> Inl e
         | Inr m2 \<Rightarrow>
             if i \<noteq> m2 then
               (case swap i m2 q of Inl e \<Rightarrow> Inl e | Inr q1 \<Rightarrow> shift_down_strict m2 q1)
             else Inr q))"
  by pat_completeness auto
termination
  by (relation "measure (\<lambda>(i, q). nat (current_size q + 1 - i))")
     (auto simp: left_child_def right_child_def rd_def swap_def wr_def
           split: if_splits sum.splits option.splits)

text \<open>
  The indices that one step of \<open>_shift_down\<close> at \<open>i\<close> examines: \<open>i\<close> itself and each
  child whose index passes the guard of the source.
\<close>

definition examined :: "PQ_pq \<Rightarrow> int \<Rightarrow> int list" where
  "examined q i = i # filter (\<lambda>c. c \<le> current_size q) [left_child i, right_child i]"

section \<open>Invariants\<close>

text \<open>The priority of the node in slot \<open>i\<close>.\<close>

definition slot_prio :: "PQ_pq \<Rightarrow> int \<Rightarrow> int" where
  "slot_prio q i = priority (projr (rd q i))"

text \<open>Slots \<open>0 .. m - 1\<close> lie inside the block and hold nodes.\<close>

definition initialised :: "PQ_pq \<Rightarrow> int \<Rightarrow> bool" where
  "initialised q m \<longleftrightarrow> (\<forall>i\<in>{0..<m}. \<not> isl (rd q i))"

text \<open>Heap order on the slots \<open>0 .. m - 1\<close>.\<close>

definition ordered_upto :: "PQ_pq \<Rightarrow> int \<Rightarrow> bool" where
  "ordered_upto q m \<longleftrightarrow> (\<forall>i\<in>{1..<m}. slot_prio q (parent i) \<le> slot_prio q i)"

text \<open>
  A well-formed queue: the counters are consistent with each other and with the allocated
  block, and the live slots hold nodes.
\<close>

definition wf :: "PQ_pq \<Rightarrow> bool" where
  "wf q \<longleftrightarrow>
     0 \<le> current_size q \<and> current_size q \<le> capacity q \<and>
     int (length (heap q)) = capacity q \<and> initialised q (current_size q)"

text \<open>The heap-order invariant of the specification, on the live slots.\<close>

definition heap_order :: "PQ_pq \<Rightarrow> bool" where
  "heap_order q \<longleftrightarrow> ordered_upto q (current_size q)"

definition pq_inv :: "PQ_pq \<Rightarrow> bool" where
  "pq_inv q \<longleftrightarrow> wf q \<and> heap_order q"

text \<open>The live elements, in index order.\<close>

definition live_nodes :: "PQ_pq \<Rightarrow> PQ_Node list" where
  "live_nodes q = map the (take (nat (current_size q)) (heap q))"

text \<open>
  The queues that \<open>PQ_create\<close>, \<open>PQ_enqueue\<close> and \<open>PQ_dequeue\<close> (called with
  \<open>current_size > 0\<close>) can produce.
\<close>

inductive reachable :: "PQ_pq \<Rightarrow> bool" where
  create: "reachable PQ_create"
| enqueue: "reachable q \<Longrightarrow> PQ_enqueue q d p = Inr q' \<Longrightarrow> reachable q'"
| dequeue: "reachable q \<Longrightarrow> 0 < current_size q \<Longrightarrow> PQ_dequeue q = Inr (d, q') \<Longrightarrow> reachable q'"

text \<open>The same with \<open>PQ_heapify\<close> (called with \<open>size >= 0\<close>) as a further source of queues.\<close>

inductive reachable_h :: "PQ_pq \<Rightarrow> bool" where
  create: "reachable_h PQ_create"
| heapify: "0 \<le> sz \<Longrightarrow> PQ_heapify arr sz = Inr q \<Longrightarrow> reachable_h q"
| enqueue: "reachable_h q \<Longrightarrow> PQ_enqueue q d p = Inr q' \<Longrightarrow> reachable_h q'"
| dequeue: "reachable_h q \<Longrightarrow> 0 < current_size q \<Longrightarrow> PQ_dequeue q = Inr (d, q') \<Longrightarrow>
    reachable_h q'"

section \<open>Auxiliary predicates of the proofs\<close>

text \<open>
  Heap order of a priority function on the indices below \<open>m\<close>, and the two weakened forms
  that hold while an element travels: during sift-up the element at \<open>i\<close> may be smaller than
  its parent, during sift-down it may be larger than its children.
\<close>

definition ordf :: "(int \<Rightarrow> int) \<Rightarrow> int \<Rightarrow> bool" where
  "ordf f m \<longleftrightarrow> (\<forall>j. 0 < j \<and> j < m \<longrightarrow> f (parent j) \<le> f j)"

definition up_okf :: "(int \<Rightarrow> int) \<Rightarrow> int \<Rightarrow> int \<Rightarrow> bool" where
  "up_okf f m i \<longleftrightarrow>
     (\<forall>j. 0 < j \<and> j < m \<and> j \<noteq> i \<longrightarrow> f (parent j) \<le> f j) \<and>
     (\<forall>j. 0 < j \<and> j < m \<and> parent j = i \<and> 0 < i \<longrightarrow> f (parent i) \<le> f j)"

definition down_okf :: "(int \<Rightarrow> int) \<Rightarrow> int \<Rightarrow> int \<Rightarrow> bool" where
  "down_okf f m i \<longleftrightarrow>
     (\<forall>j. 0 < j \<and> j < m \<and> parent j \<noteq> i \<longrightarrow> f (parent j) \<le> f j) \<and>
     (\<forall>j. 0 < j \<and> j < m \<and> parent j = i \<and> 0 < i \<longrightarrow> f (parent i) \<le> f j)"

text \<open>
  \<open>q'\<close> has the counters and the block size of \<open>q\<close>, the same slots from \<open>m\<close> on, and a
  rearrangement of the first \<open>m\<close> slots.
\<close>

definition permuted :: "PQ_pq \<Rightarrow> PQ_pq \<Rightarrow> int \<Rightarrow> bool" where
  "permuted q q' m \<longleftrightarrow>
     current_size q' = current_size q \<and> capacity q' = capacity q \<and>
     length (heap q') = length (heap q) \<and>
     mset (take (nat m) (heap q')) = mset (take (nat m) (heap q)) \<and>
     drop (nat m) (heap q') = drop (nat m) (heap q)"

text \<open>The recursive equations are unfolded by hand, one call at a time.\<close>

declare shift_up.simps [simp del] shift_down.simps [simp del]

section \<open>Index arithmetic\<close>

lemma parent_pos: "0 < i \<Longrightarrow> parent i = (i - 1) div 2"
  by (simp add: parent_def signed_divide_int_def sgn_if)

lemma parent_bounds: "0 < i \<Longrightarrow> 0 \<le> parent i \<and> parent i < i"
  by (simp add: parent_pos)

lemma parent_child_iff:
  "0 < j \<Longrightarrow> parent j = i \<longleftrightarrow> j = left_child i \<or> j = right_child i"
  by (auto simp: parent_pos left_child_def right_child_def)

section \<open>Reading, writing and exchanging slots\<close>

lemma rd_Inr_iff:
  "rd q i = Inr n \<longleftrightarrow> 0 \<le> i \<and> i < int (length (heap q)) \<and> heap q ! nat i = Some n"
  by (auto simp: rd_def split: option.splits)

lemma initialisedD:
  "initialised q m \<Longrightarrow> 0 \<le> i \<Longrightarrow> i < m \<Longrightarrow> \<exists>n. rd q i = Inr n"
proof -
  assume "initialised q m" "0 \<le> i" "i < m"
  then have "\<not> isl (rd q i)" by (simp add: initialised_def)
  then show ?thesis by (cases "rd q i") auto
qed

lemma initialised_mono: "initialised q m \<Longrightarrow> k \<le> m \<Longrightarrow> initialised q k"
  by (auto simp: initialised_def)

lemma initialised_iff:
  "0 \<le> m \<Longrightarrow> initialised q m \<longleftrightarrow> m \<le> int (length (heap q)) \<and> None \<notin> set (take (nat m) (heap q))"
proof
  assume m: "0 \<le> m" and i: "initialised q m"
  have le: "m \<le> int (length (heap q))"
  proof (rule ccontr)
    assume "\<not> m \<le> int (length (heap q))"
    then have "0 \<le> int (length (heap q))" "int (length (heap q)) < m" by auto
    from initialisedD [OF i this] show False by (simp add: rd_Inr_iff)
  qed
  have "None \<notin> set (take (nat m) (heap q))"
  proof
    assume "None \<in> set (take (nat m) (heap q))"
    then obtain k where k: "k < length (take (nat m) (heap q))" "take (nat m) (heap q) ! k = None"
      by (auto simp: in_set_conv_nth)
    then have "0 \<le> int k" "int k < m" by auto
    from initialisedD [OF i this] k show False by (auto simp: rd_Inr_iff)
  qed
  with le show "m \<le> int (length (heap q)) \<and> None \<notin> set (take (nat m) (heap q))" ..
next
  assume m: "0 \<le> m" and r: "m \<le> int (length (heap q)) \<and> None \<notin> set (take (nat m) (heap q))"
  show "initialised q m"
    unfolding initialised_def
  proof
    fix i assume "i \<in> {0..<m}"
    then have i: "0 \<le> i" "i < m" by auto
    with r have "nat i < length (take (nat m) (heap q))" by auto
    then have "take (nat m) (heap q) ! nat i \<in> set (take (nat m) (heap q))"
      by (rule nth_mem)
    moreover have "take (nat m) (heap q) ! nat i = heap q ! nat i" using i by simp
    ultimately have "heap q ! nat i \<noteq> None" using r by metis
    with r i show "\<not> isl (rd q i)" by (auto simp: rd_def)
  qed
qed

lemma rd_heap_update:
  "0 \<le> a \<Longrightarrow> a < int (length (heap q)) \<Longrightarrow>
   rd (q\<lparr>heap := (heap q)[nat a := Some y]\<rparr>) k = (if k = a then Inr y else rd q k)"
  by (auto simp: rd_def nth_list_update)

lemma wr_Inr:
  "0 \<le> i \<Longrightarrow> i < int (length (heap q)) \<Longrightarrow>
   wr q i n = Inr (q\<lparr>heap := (heap q)[nat i := Some n]\<rparr>)"
  by (simp add: wr_def)

lemma rd_current_size_update [simp]: "rd (q\<lparr>current_size := x\<rparr>) i = rd q i"
  by (simp add: rd_def)

lemma slot_prio_current_size_update [simp]: "slot_prio (q\<lparr>current_size := x\<rparr>) = slot_prio q"
  by (simp add: slot_prio_def fun_eq_iff)

lemma initialised_current_size_update [simp]:
  "initialised (q\<lparr>current_size := x\<rparr>) m = initialised q m"
  by (simp add: initialised_def)

lemma swap_Inr:
  assumes "rd q a = Inr x" "rd q b = Inr y"
  shows "swap a b q = Inr (q\<lparr>heap := (heap q)[nat a := Some y, nat b := Some x]\<rparr>)"
proof -
  from assms have "0 \<le> a" "a < int (length (heap q))" "0 \<le> b" "b < int (length (heap q))"
    by (auto simp: rd_Inr_iff)
  then show ?thesis by (simp add: swap_def assms wr_def)
qed

lemma rd_swapped:
  assumes "rd q a = Inr x" "rd q b = Inr y"
  shows "rd (q\<lparr>heap := (heap q)[nat a := Some y, nat b := Some x]\<rparr>) k =
           (if k = b then Inr x else if k = a then Inr y else rd q k)"
proof -
  from assms have r: "0 \<le> a" "a < int (length (heap q))" "0 \<le> b" "b < int (length (heap q))"
    by (auto simp: rd_Inr_iff)
  let ?q1 = "q\<lparr>heap := (heap q)[nat a := Some y]\<rparr>"
  have "rd (?q1\<lparr>heap := (heap ?q1)[nat b := Some x]\<rparr>) k = (if k = b then Inr x else rd ?q1 k)"
    by (rule rd_heap_update) (use r in auto)
  then show ?thesis using rd_heap_update [OF r(1,2), of y k] by simp
qed

lemma mset_take_swapped:
  assumes "rd q a = Inr x" "rd q b = Inr y" "a < m" "b < m"
  shows "mset (take (nat m) ((heap q)[nat a := Some y, nat b := Some x])) =
         mset (take (nat m) (heap q))"
proof -
  let ?t = "take (nat m) (heap q)"
  from assms have a: "nat a < length ?t" and b: "nat b < length ?t"
    by (auto simp: rd_Inr_iff)
  from assms a b have "?t ! nat a = Some x" "?t ! nat b = Some y"
    by (auto simp: rd_Inr_iff)
  with mset_swap [OF b a] show ?thesis
    by (simp add: take_update_swap)
qed

lemma drop_swapped:
  assumes "0 \<le> a" "0 \<le> b" "a < m" "b < m"
  shows "drop (nat m) (h[nat a := u, nat b := v]) = drop (nat m) h"
  using assms by (simp add: drop_update_cancel)

lemma permuted_refl: "permuted q q m"
  by (simp add: permuted_def)

lemma permuted_trans: "permuted q q1 m \<Longrightarrow> permuted q1 q2 m \<Longrightarrow> permuted q q2 m"
  by (simp add: permuted_def)

lemma permuted_initialised:
  assumes "permuted q q' m" "initialised q m" "0 \<le> m"
  shows "initialised q' m"
proof -
  from assms have "set (take (nat m) (heap q')) = set (take (nat m) (heap q))"
    unfolding permuted_def by (metis set_mset_mset)
  with assms show ?thesis by (simp add: initialised_iff permuted_def)
qed

lemma swap_effect:
  assumes "rd q a = Inr x" "rd q b = Inr y"
  shows "\<exists>q'. swap a b q = Inr q' \<and>
           (\<forall>k. rd q' k = (if k = b then Inr x else if k = a then Inr y else rd q k)) \<and>
           (\<forall>m. a < m \<and> b < m \<longrightarrow> permuted q q' m)"
proof -
  let ?q' = "q\<lparr>heap := (heap q)[nat a := Some y, nat b := Some x]\<rparr>"
  from assms have r: "0 \<le> a" "0 \<le> b" by (auto simp: rd_Inr_iff)
  have "swap a b q = Inr ?q'" by (rule swap_Inr [OF assms])
  moreover have "\<forall>k. rd ?q' k = (if k = b then Inr x else if k = a then Inr y else rd q k)"
    using rd_swapped [OF assms] by blast
  moreover have "\<forall>m. a < m \<and> b < m \<longrightarrow> permuted q ?q' m"
    using mset_take_swapped [OF assms] drop_swapped [OF r]
    by (auto simp: permuted_def)
  ultimately show ?thesis by blast
qed

lemma slot_prio_swapped:
  assumes "rd q a = Inr x" "rd q b = Inr y"
    and "\<forall>k. rd q' k = (if k = b then Inr x else if k = a then Inr y else rd q k)"
  shows "slot_prio q' = (slot_prio q)(b := slot_prio q a, a := slot_prio q b)"
  using assms by (auto simp: slot_prio_def fun_eq_iff)

section \<open>Heap order under an exchange\<close>

text \<open>
  The effect of one exchange on the order, for a priority function on indices: the arithmetic of
  parents and children, with no queue in sight.
\<close>

lemma ordered_upto_ordf: "ordered_upto q m \<longleftrightarrow> ordf (slot_prio q) m"
  by (auto simp: ordered_upto_def ordf_def)

lemma root_least:
  assumes "ordf f m" "0 \<le> i" "i < m"
  shows "f 0 \<le> f i"
  using assms
proof (induction "nat i" arbitrary: i rule: less_induct)
  case less
  show ?case
  proof (cases "i = 0")
    case True
    then show ?thesis by simp
  next
    case False
    with less.prems have i: "0 < i" by simp
    then have p: "0 \<le> parent i" "parent i < i" using parent_bounds by auto
    then have "nat (parent i) < nat i" using i by simp
    from less.hyps [OF this less.prems(1) p(1)] p less.prems have "f 0 \<le> f (parent i)" by simp
    moreover have "f (parent i) \<le> f i" using less.prems i by (simp add: ordf_def)
    ultimately show ?thesis by simp
  qed
qed

lemma up_okf_done:
  "up_okf f m i \<Longrightarrow> i \<le> 0 \<or> f (parent i) \<le> f i \<Longrightarrow> ordf f m"
  unfolding up_okf_def ordf_def by (metis not_less)

lemma up_okf_step:
  assumes "up_okf f m i" "0 < i" "i < m" "f i < f (parent i)"
  shows "up_okf (f(i := f (parent i), parent i := f i)) m (parent i)"
proof -
  let ?p = "parent i"
  have p: "0 \<le> ?p" "?p < i" using parent_bounds [OF assms(2)] by auto
  have one: "\<And>j. 0 < j \<Longrightarrow> j < m \<Longrightarrow> j \<noteq> i \<Longrightarrow> f (parent j) \<le> f j"
    using assms(1) unfolding up_okf_def by blast
  have two: "\<And>j. 0 < j \<Longrightarrow> j < m \<Longrightarrow> parent j = i \<Longrightarrow> f ?p \<le> f j"
    using assms(1,2) unfolding up_okf_def by blast
  show ?thesis
    unfolding up_okf_def
  proof (intro conjI allI impI)
    fix j assume j: "0 < j \<and> j < m \<and> j \<noteq> ?p"
    then have pj: "parent j < j" "0 \<le> parent j" using parent_bounds [of j] by auto
    show "(f(i := f ?p, ?p := f i)) (parent j) \<le> (f(i := f ?p, ?p := f i)) j"
    proof (cases "j = i")
      case True
      then show ?thesis using assms(4) p by simp
    next
      case False
      note ji = this
      show ?thesis
      proof (cases "parent j = i")
        case True
        then show ?thesis using j ji two [of j] p by auto
      next
        case False
        then show ?thesis using j ji one [of j] assms(4) by auto
      qed
    qed
  next
    fix j assume j: "0 < j \<and> j < m \<and> parent j = ?p \<and> 0 < ?p"
    then have pp: "parent ?p < ?p" "0 \<le> parent ?p" using parent_bounds [of ?p] by auto
    have "f (parent ?p) \<le> f ?p" using one [of ?p] j p assms(3) by auto
    moreover have "j \<noteq> i \<Longrightarrow> f ?p \<le> f j" using one [of j] j by auto
    ultimately show "(f(i := f ?p, ?p := f i)) (parent ?p) \<le> (f(i := f ?p, ?p := f i)) j"
      using pp p j by auto
  qed
qed

lemma down_okf_done:
  assumes "down_okf f m i" "\<And>j. 0 < j \<Longrightarrow> j < m \<Longrightarrow> parent j = i \<Longrightarrow> f i \<le> f j"
  shows "ordf f m"
  using assms unfolding down_okf_def ordf_def by metis

lemma down_okf_step:
  assumes "down_okf f m i" "0 \<le> i" "0 < c" "c < m" "parent c = i" "f c < f i"
    and least: "\<And>j. 0 < j \<Longrightarrow> j < m \<Longrightarrow> parent j = i \<Longrightarrow> f c \<le> f j"
  shows "down_okf (f(c := f i, i := f c)) m c"
proof -
  have ic: "i < c" using parent_bounds [OF assms(3)] assms(5) by auto
  have one: "\<And>j. 0 < j \<Longrightarrow> j < m \<Longrightarrow> parent j \<noteq> i \<Longrightarrow> f (parent j) \<le> f j"
    using assms(1) unfolding down_okf_def by blast
  have two: "\<And>j. 0 < j \<Longrightarrow> j < m \<Longrightarrow> parent j = i \<Longrightarrow> 0 < i \<Longrightarrow> f (parent i) \<le> f j"
    using assms(1) unfolding down_okf_def by blast
  show ?thesis
    unfolding down_okf_def
  proof (intro conjI allI impI)
    fix j assume j: "0 < j \<and> j < m \<and> parent j \<noteq> c"
    then have pj: "parent j < j" "0 \<le> parent j" using parent_bounds [of j] by auto
    show "(f(c := f i, i := f c)) (parent j) \<le> (f(c := f i, i := f c)) j"
    proof (cases "j = c")
      case True
      then show ?thesis using assms(5,6) ic by simp
    next
      case False
      note jc = this
      show ?thesis
      proof (cases "j = i")
        case True
        then have "0 < i" using j by simp
        then have "f (parent i) \<le> f c" using two [of c] assms by simp
        moreover have "parent i < i" using parent_bounds [OF \<open>0 < i\<close>] by simp
        ultimately show ?thesis using True ic by auto
      next
        case False
        then show ?thesis using j jc one [of j] least [of j] by auto
      qed
    qed
  next
    fix j assume j: "0 < j \<and> j < m \<and> parent j = c \<and> 0 < c"
    then have "c < j" using parent_bounds [of j] by auto
    moreover have "f c \<le> f j" using one [of j] j ic by auto
    ultimately show "(f(c := f i, i := f c)) (parent c) \<le> (f(c := f i, i := f c)) j"
      using assms(5) ic by auto
  qed
qed

section \<open>Sift-up\<close>

lemma shift_up_correct:
  assumes "initialised q m" "0 \<le> i" "i < m" "up_okf (slot_prio q) m i"
  shows "\<exists>q'. shift_up i q = Inr q' \<and> permuted q q' m \<and> ordf (slot_prio q') m"
  using assms
proof (induction i q rule: shift_up.induct)
  case (1 i q)
  show ?case
  proof (cases "0 < i")
    case False
    with "1.prems" have "ordf (slot_prio q) m" using up_okf_done by auto
    with False show ?thesis by (simp add: shift_up.simps permuted_refl)
  next
    case True
    then have pb: "0 \<le> parent i" "parent i < i" using parent_bounds by auto
    with "1.prems" obtain a b where ab: "rd q (parent i) = Inr a" "rd q i = Inr b"
      using initialisedD [of q m "parent i"] initialisedD [of q m i] by auto
    show ?thesis
    proof (cases "priority a > priority b")
      case False
      with ab have "slot_prio q (parent i) \<le> slot_prio q i" by (simp add: slot_prio_def)
      with "1.prems" have "ordf (slot_prio q) m" using up_okf_done by blast
      with True ab False show ?thesis by (simp add: shift_up.simps permuted_refl)
    next
      case gt: True
      from swap_effect [OF ab] obtain q1 where q1: "swap (parent i) i q = Inr q1"
        "\<forall>k. rd q1 k = (if k = i then Inr a else if k = parent i then Inr b else rd q k)"
        "permuted q q1 m" using pb "1.prems" by auto
      have sp: "slot_prio q1 = (slot_prio q)(i := slot_prio q (parent i), parent i := slot_prio q i)"
        using slot_prio_swapped [OF ab q1(2)] by simp
      have lt: "slot_prio q i < slot_prio q (parent i)" using gt ab by (simp add: slot_prio_def)
      have "up_okf (slot_prio q1) m (parent i)"
        unfolding sp by (rule up_okf_step [OF "1.prems"(4) True "1.prems"(3) lt])
      moreover have "initialised q1 m"
        using permuted_initialised [OF q1(3) "1.prems"(1)] "1.prems" by simp
      ultimately obtain q' where q': "shift_up (parent i) q1 = Inr q'" "permuted q1 q' m"
        "ordf (slot_prio q') m"
        using "1.IH" [OF True ab gt q1(1)] pb "1.prems" by auto
      have "shift_up i q = Inr q'" using True ab gt q1(1) q'(1) by (simp add: shift_up.simps)
      with q' q1(3) show ?thesis using permuted_trans by blast
    qed
  qed
qed

section \<open>Sift-down\<close>

text \<open>
  One call of \<open>_shift_down\<close> unfolded, then its correctness on the queue that
  \<open>_PQ_dequeue\<close> passes: the slot at index \<open>current_size\<close> still holds the node that was
  moved to the root, which is why the guard \<open><=\<close> never selects it.
\<close>

lemma shift_down_step:
  assumes i: "rd q i = Inr b"
    and l: "left_child i \<le> current_size q \<Longrightarrow> \<not> isl (rd q (left_child i))"
    and r: "right_child i \<le> current_size q \<Longrightarrow> \<not> isl (rd q (right_child i))"
  defines "m1 \<equiv> (if left_child i \<le> current_size q \<and> slot_prio q (left_child i) < slot_prio q i
                   then left_child i else i)"
  defines "m2 \<equiv> (if right_child i \<le> current_size q \<and> slot_prio q (right_child i) < slot_prio q m1
                   then right_child i else m1)"
  shows "shift_down i q =
           (if i \<noteq> m2 then (case swap i m2 q of Inl e \<Rightarrow> Inl e | Inr q1 \<Rightarrow> shift_down m2 q1)
            else Inr q)"
proof -
  have e1: "(if left_child i \<le> current_size q then
              (case rd q (left_child i) of Inl e \<Rightarrow> Inl e | Inr a \<Rightarrow>
               (case rd q i of Inl e \<Rightarrow> Inl e | Inr b \<Rightarrow>
                  Inr (if priority a < priority b then left_child i else i)))
            else Inr i) = Inr m1"
    using i l by (cases "rd q (left_child i)") (auto simp: m1_def slot_prio_def)
  have m1: "\<not> isl (rd q m1)" using i l by (auto simp: m1_def)
  have e2: "(if right_child i \<le> current_size q then
                 (case rd q (right_child i) of Inl e \<Rightarrow> Inl e | Inr a \<Rightarrow>
                  (case rd q m1 of Inl e \<Rightarrow> Inl e | Inr b \<Rightarrow>
                     Inr (if priority a < priority b then right_child i else m1)))
               else Inr m1) = Inr m2"
    using m1 r by (cases "rd q (right_child i)"; cases "rd q m1") (auto simp: m2_def slot_prio_def)
  show ?thesis
    by (subst shift_down.simps) (simp only: e1 e2 sum.case)
qed

lemma shift_down_leaf:
  assumes "rd q i = Inr b" "current_size q < left_child i" "0 \<le> i"
  shows "shift_down i q = Inr q"
proof -
  from assms have "\<not> left_child i \<le> current_size q" "\<not> right_child i \<le> current_size q"
    by (auto simp: left_child_def right_child_def)
  with shift_down_step [OF assms(1)] show ?thesis by simp
qed

lemma shift_down_correct:
  assumes "current_size q = m" "initialised q (m + 1)" "0 \<le> i" "i < m"
    "slot_prio q m = slot_prio q i" "down_okf (slot_prio q) m i"
  shows "\<exists>q'. shift_down i q = Inr q' \<and> permuted q q' m \<and> ordf (slot_prio q') m"
  using assms
proof (induction "nat (m - i)" arbitrary: i q rule: less_induct)
  case less
  let ?P = "slot_prio q"
  let ?l = "left_child i" and ?r = "right_child i"
  define m1 where "m1 = (if ?l \<le> current_size q \<and> ?P ?l < ?P i then ?l else i)"
  define m2 where "m2 = (if ?r \<le> current_size q \<and> ?P ?r < ?P m1 then ?r else m1)"
  have lr: "i < ?l" "?l < ?r" "parent ?l = i" "parent ?r = i" "0 < ?l" "0 < ?r"
    using less.prems(3) by (auto simp: left_child_def right_child_def parent_pos)
  obtain b where b: "rd q i = Inr b" using initialisedD [OF less.prems(2), of i] less.prems by auto
  have rl: "?l \<le> current_size q \<Longrightarrow> \<not> isl (rd q ?l)"
    using initialisedD [OF less.prems(2), of ?l] less.prems lr by auto
  have rr: "?r \<le> current_size q \<Longrightarrow> \<not> isl (rd q ?r)"
    using initialisedD [OF less.prems(2), of ?r] less.prems lr by auto
  have step: "shift_down i q =
           (if i \<noteq> m2 then (case swap i m2 q of Inl e \<Rightarrow> Inl e | Inr q1 \<Rightarrow> shift_down m2 q1)
            else Inr q)"
    unfolding m1_def m2_def by (rule shift_down_step [OF b rl rr])
  have pm: "?P m = ?P i" using less.prems(5) .
  have m1l: "m1 = ?l \<Longrightarrow> ?l < m \<and> ?P ?l < ?P i"
  proof -
    assume "m1 = ?l"
    then have a: "?l \<le> m" "?P ?l < ?P i"
      using lr less.prems(1) by (auto simp: m1_def split: if_splits)
    then have "?l \<noteq> m" using pm by auto
    with a show ?thesis by simp
  qed
  have m1i: "m1 \<noteq> ?l \<Longrightarrow> m1 = i \<and> (?l < m \<longrightarrow> ?P i \<le> ?P ?l)"
    using less.prems(1) by (auto simp: m1_def split: if_splits)
  have m1le: "?P m1 \<le> ?P i" using m1l m1i by (cases "m1 = ?l") auto
  have m1r: "m1 \<noteq> ?r" using m1i lr by (cases "m1 = ?l") auto
  have m2r: "m2 = ?r \<Longrightarrow> ?r < m \<and> ?P ?r < ?P m1"
  proof -
    assume "m2 = ?r"
    then have a: "?r \<le> m" "?P ?r < ?P m1"
      using m1r less.prems(1) by (auto simp: m2_def split: if_splits)
    then have "?r \<noteq> m" using pm m1le by auto
    with a show ?thesis by simp
  qed
  have m2n: "m2 \<noteq> ?r \<Longrightarrow> m2 = m1 \<and> (?r < m \<longrightarrow> ?P m1 \<le> ?P ?r)"
    using less.prems(1) by (auto simp: m2_def split: if_splits)
  have children: "\<And>j. 0 < j \<Longrightarrow> parent j = i \<Longrightarrow> j = ?l \<or> j = ?r"
    by (simp add: parent_child_iff)
  show ?case
  proof (cases "m2 = i")
    case True
    then have "m1 = i" "m2 \<noteq> ?r" using m2n lr by auto
    then have "\<And>j. 0 < j \<Longrightarrow> j < m \<Longrightarrow> parent j = i \<Longrightarrow> ?P i \<le> ?P j"
      using children m1i m2n lr by (metis less_irrefl)
    with less.prems(6) have "ordf ?P m" by (rule down_okf_done)
    with True step show ?thesis by (simp add: permuted_refl)
  next
    case False
    then have c: "m2 = ?l \<or> m2 = ?r" using m2n m1i by metis
    have cm: "m2 < m \<and> ?P m2 < ?P i \<and> 0 < m2 \<and> parent m2 = i \<and> i < m2"
    proof (cases "m2 = ?r")
      case True
      with m2r m1le lr show ?thesis by auto
    next
      case False
      with c m2n have "m2 = ?l" "m1 = ?l" by auto
      with m1l lr show ?thesis by auto
    qed
    have least: "\<And>j. 0 < j \<Longrightarrow> j < m \<Longrightarrow> parent j = i \<Longrightarrow> ?P m2 \<le> ?P j"
    proof -
      fix j assume j: "0 < j" "j < m" "parent j = i"
      then have jc: "j = ?l \<or> j = ?r" using children by simp
      show "?P m2 \<le> ?P j"
      proof (cases "m2 = ?r")
        case True
        note r = this
        show ?thesis
        proof (cases "j = ?r")
          case True
          with r show ?thesis by simp
        next
          case False
          with jc have jl: "j = ?l" by simp
          show ?thesis
          proof (cases "m1 = ?l")
            case True
            with m2r [OF r] jl show ?thesis using r by simp
          next
            case False
            with m1i j jl have "m1 = i" "?P i \<le> ?P j" by auto
            with m2r [OF r] r show ?thesis by simp
          qed
        qed
      next
        case False
        with c m2n have l: "m2 = ?l" "m1 = ?l" "?r < m \<longrightarrow> ?P ?l \<le> ?P ?r" by auto
        with jc j show ?thesis by auto
      qed
    qed
    obtain c' where c': "rd q m2 = Inr c'"
      using initialisedD [OF less.prems(2), of m2] cm less.prems by auto
    from swap_effect [OF b c'] obtain q1 where q1: "swap i m2 q = Inr q1"
      "\<forall>k. rd q1 k = (if k = m2 then Inr b else if k = i then Inr c' else rd q k)"
      "permuted q q1 m" "permuted q q1 (m + 1)"
      using cm less.prems(4) by force
    have sp: "slot_prio q1 = (?P)(m2 := ?P i, i := ?P m2)"
      using slot_prio_swapped [OF b c' q1(2)] by simp
    have d: "down_okf (slot_prio q1) m m2"
      unfolding sp
      by (rule down_okf_step [OF less.prems(6) less.prems(3) _ _ _ _ least]) (use cm in auto)
    have i1: "initialised q1 (m + 1)"
      using permuted_initialised [OF q1(4) less.prems(2)] less.prems by simp
    have cs: "current_size q1 = m" using q1(3) less.prems(1) by (simp add: permuted_def)
    have eq: "slot_prio q1 m = slot_prio q1 m2"
      using less.prems cm by (simp add: sp)
    have "nat (m - m2) < nat (m - i)" using cm by simp
    from less.hyps [OF this cs i1 _ _ eq d] cm less.prems
    obtain q' where q': "shift_down m2 q1 = Inr q'" "permuted q1 q' m" "ordf (slot_prio q') m"
      by auto
    have "shift_down i q = Inr q'" using step False q1(1) q'(1) by simp
    with q' q1(3) show ?thesis using permuted_trans by blast
  qed
qed

lemma shift_down_strict_step:
  assumes i: "rd q i = Inr b"
    and l: "left_child i \<le> current_size q - 1 \<Longrightarrow> \<not> isl (rd q (left_child i))"
    and r: "right_child i \<le> current_size q - 1 \<Longrightarrow> \<not> isl (rd q (right_child i))"
  defines "m1 \<equiv> (if left_child i \<le> current_size q - 1 \<and>
                      slot_prio q (left_child i) < slot_prio q i
                   then left_child i else i)"
  defines "m2 \<equiv> (if right_child i \<le> current_size q - 1 \<and>
                      slot_prio q (right_child i) < slot_prio q m1
                   then right_child i else m1)"
  shows "shift_down_strict i q =
           (if i \<noteq> m2 then
              (case swap i m2 q of Inl e \<Rightarrow> Inl e | Inr q1 \<Rightarrow> shift_down_strict m2 q1)
            else Inr q)"
proof -
  have e1: "(if left_child i \<le> current_size q - 1 then
              (case rd q (left_child i) of Inl e \<Rightarrow> Inl e | Inr a \<Rightarrow>
               (case rd q i of Inl e \<Rightarrow> Inl e | Inr b \<Rightarrow>
                  Inr (if priority a < priority b then left_child i else i)))
            else Inr i) = Inr m1"
    using i l by (cases "rd q (left_child i)") (auto simp: m1_def slot_prio_def)
  have m1: "\<not> isl (rd q m1)" using i l by (auto simp: m1_def)
  have e2: "(if right_child i \<le> current_size q - 1 then
                 (case rd q (right_child i) of Inl e \<Rightarrow> Inl e | Inr a \<Rightarrow>
                  (case rd q m1 of Inl e \<Rightarrow> Inl e | Inr b \<Rightarrow>
                     Inr (if priority a < priority b then right_child i else m1)))
               else Inr m1) = Inr m2"
    using m1 r by (cases "rd q (right_child i)"; cases "rd q m1") (auto simp: m2_def slot_prio_def)
  show ?thesis
    by (subst shift_down_strict.simps) (simp only: e1 e2 sum.case)
qed

lemma shift_down_eq_strict:
  assumes "current_size q = m" "initialised q (m + 1)" "0 \<le> i" "i < m"
    "slot_prio q m = slot_prio q i"
  shows "\<exists>q'. shift_down i q = Inr q' \<and> shift_down_strict i q = Inr q'"
  using assms
proof (induction "nat (m - i)" arbitrary: i q rule: less_induct)
  case less
  let ?P = "slot_prio q"
  let ?l = "left_child i" and ?r = "right_child i"
  define m1 where "m1 = (if ?l \<le> current_size q \<and> ?P ?l < ?P i then ?l else i)"
  define m2 where "m2 = (if ?r \<le> current_size q \<and> ?P ?r < ?P m1 then ?r else m1)"
  define s1 where "s1 = (if ?l \<le> current_size q - 1 \<and> ?P ?l < ?P i then ?l else i)"
  define s2 where "s2 = (if ?r \<le> current_size q - 1 \<and> ?P ?r < ?P s1 then ?r else s1)"
  have lr: "i < ?l" "?l < ?r" using less.prems(3) by (auto simp: left_child_def right_child_def)
  have pm: "?P m = ?P i" using less.prems(5) .
  obtain b where b: "rd q i = Inr b" using initialisedD [OF less.prems(2), of i] less.prems by auto
  have rl: "?l \<le> current_size q \<Longrightarrow> \<not> isl (rd q ?l)"
    using initialisedD [OF less.prems(2), of ?l] less.prems lr by auto
  have rr: "?r \<le> current_size q \<Longrightarrow> \<not> isl (rd q ?r)"
    using initialisedD [OF less.prems(2), of ?r] less.prems lr by auto
  have step: "shift_down i q =
           (if i \<noteq> m2 then (case swap i m2 q of Inl e \<Rightarrow> Inl e | Inr q1 \<Rightarrow> shift_down m2 q1)
            else Inr q)"
    unfolding m1_def m2_def by (rule shift_down_step [OF b rl rr])
  have sstep: "shift_down_strict i q =
           (if i \<noteq> s2 then
              (case swap i s2 q of Inl e \<Rightarrow> Inl e | Inr q1 \<Rightarrow> shift_down_strict s2 q1)
            else Inr q)"
    unfolding s1_def s2_def by (rule shift_down_strict_step [OF b]) (use rl rr in auto)
  have e1: "m1 = s1"
    using pm less.prems(1) by (cases "?l = m") (auto simp: m1_def s1_def)
  have s1le: "?P s1 \<le> ?P i" by (auto simp: s1_def)
  have e2: "m2 = s2"
    using pm less.prems(1) s1le by (cases "?r = m") (auto simp: m2_def s2_def e1)
  show ?case
  proof (cases "s2 = i")
    case True
    with step sstep e2 show ?thesis by (simp del: shift_down_strict.simps)
  next
    case False
    have s1i: "s1 = i \<or> (s1 = ?l \<and> ?l < m)"
      using less.prems(1) by (auto simp: s1_def)
    have c: "i < s2 \<and> s2 < m"
      using False s1i lr less.prems(1) by (auto simp: s2_def split: if_splits)
    obtain c' where c': "rd q s2 = Inr c'"
      using initialisedD [OF less.prems(2), of s2] c less.prems by auto
    from swap_effect [OF b c'] obtain q1 where q1: "swap i s2 q = Inr q1"
      "\<forall>k. rd q1 k = (if k = s2 then Inr b else if k = i then Inr c' else rd q k)"
      "permuted q q1 (m + 1)"
      using c less.prems(4) by force
    have i1: "initialised q1 (m + 1)"
      using permuted_initialised [OF q1(3) less.prems(2)] less.prems by simp
    have cs: "current_size q1 = m" using q1(3) less.prems(1) by (simp add: permuted_def)
    have eq: "slot_prio q1 m = slot_prio q1 s2"
      using c less.prems(4) pm b q1(2) by (simp add: slot_prio_def)
    have "nat (m - s2) < nat (m - i)" using c by simp
    from less.hyps [OF this cs i1 _ _ eq] c less.prems(3)
    obtain q' where q': "shift_down s2 q1 = Inr q'" "shift_down_strict s2 q1 = Inr q'"
      by (auto simp del: shift_down_strict.simps)
    with step sstep e2 False q1(1) show ?thesis by (simp del: shift_down_strict.simps)
  qed
qed

section \<open>The live elements\<close>

lemma live_nodes_nth:
  assumes "initialised q (current_size q)" "0 \<le> i" "i < current_size q"
  shows "rd q i = Inr (live_nodes q ! nat i) \<and> nat i < length (live_nodes q)"
proof -
  from initialisedD [OF assms] obtain n where n: "rd q i = Inr n" by blast
  then have "i < int (length (heap q))" "heap q ! nat i = Some n" by (auto simp: rd_Inr_iff)
  with assms n show ?thesis by (simp add: live_nodes_def)
qed

lemma live_nodes_length:
  assumes "initialised q (current_size q)" "0 \<le> current_size q"
  shows "int (length (live_nodes q)) = current_size q"
proof -
  from assms have "current_size q \<le> int (length (heap q))" by (simp add: initialised_iff)
  with assms(2) show ?thesis by (auto simp: live_nodes_def min_def)
qed

lemma in_live_nodes:
  assumes "initialised q (current_size q)" "0 \<le> current_size q" "x \<in> set (live_nodes q)"
  shows "\<exists>i. 0 \<le> i \<and> i < current_size q \<and> rd q i = Inr x"
proof -
  from assms(3) obtain k where k: "k < length (live_nodes q)" "live_nodes q ! k = x"
    by (auto simp: in_set_conv_nth)
  with live_nodes_length [OF assms(1,2)] have "0 \<le> int k" "int k < current_size q" by auto
  with live_nodes_nth [OF assms(1) this] k have "rd q (int k) = Inr x" by simp
  with \<open>0 \<le> int k\<close> \<open>int k < current_size q\<close> show ?thesis by blast
qed

lemma live_nodes_empty: "current_size q = 0 \<Longrightarrow> live_nodes q = []"
  by (simp add: live_nodes_def)

lemma mset_live_nodes:
  "mset (live_nodes q) = image_mset the (mset (take (nat (current_size q)) (heap q)))"
  by (simp add: live_nodes_def)

lemma root_minimal:
  assumes "pq_inv q" "0 \<le> i" "i < current_size q"
  shows "slot_prio q 0 \<le> slot_prio q i"
  using assms root_least [of "slot_prio q" "current_size q" i]
  by (simp add: pq_inv_def heap_order_def ordered_upto_ordf)

lemma root_in_live_nodes:
  assumes "pq_inv q" "0 < current_size q" "rd q 0 = Inr n"
  shows "n \<in> set (live_nodes q)"
proof -
  from assms have "initialised q (current_size q)" by (simp add: pq_inv_def wf_def)
  from live_nodes_nth [OF this, of 0] assms
  have "live_nodes q ! 0 = n" "0 < length (live_nodes q)" by auto
  then show ?thesis using nth_mem by blast
qed

lemma root_is_minimum:
  assumes "pq_inv q" "rd q 0 = Inr n" "x \<in> set (live_nodes q)"
  shows "priority n \<le> priority x"
proof -
  from assms have w: "initialised q (current_size q)" "0 \<le> current_size q"
    by (simp_all add: pq_inv_def wf_def)
  from in_live_nodes [OF w assms(3)] obtain i where i: "0 \<le> i" "i < current_size q"
    "rd q i = Inr x" by blast
  from root_minimal [OF assms(1) i(1,2)] assms(2) i(3) show ?thesis
    by (simp add: slot_prio_def)
qed

section \<open>Growth of the block\<close>

lemma check_size_wf:
  assumes "wf q"
  shows "current_size (check_size q) = current_size q"
    and "capacity (check_size q) =
           (if current_size q + 1 > capacity q then capacity q + 10 else capacity q)"
    and "heap (check_size q) =
           (if current_size q + 1 > capacity q then heap q @ replicate 10 None else heap q)"
    and "int (length (heap (check_size q))) = capacity (check_size q)"
    and "current_size q < capacity (check_size q)"
  using assms
  by (auto simp: wf_def check_size_def realloc_slots_def PQ_INCREMENT_SIZE_def nat_add_distrib)

lemma rd_check_size:
  assumes "wf q" "k < current_size q"
  shows "rd (check_size q) k = rd q k"
  using assms check_size_wf(3) [OF assms(1)]
  by (auto simp: rd_def wf_def nth_append)

lemma check_size_idem: "check_size (check_size q) = check_size q"
  by (simp add: check_size_def PQ_INCREMENT_SIZE_def)

lemma live_nodes_check_size:
  assumes "wf q"
  shows "live_nodes (check_size q) = live_nodes q"
  using assms check_size_wf(1,3) [OF assms]
  by (auto simp: live_nodes_def wf_def)

section \<open>Enqueue and dequeue\<close>

lemma pq_inv_create: "pq_inv PQ_create"
  by (simp add: pq_inv_def wf_def heap_order_def ordered_upto_def initialised_def
      PQ_create_def PQ_INITIAL_SIZE_def malloc_slots_def)

lemma PQ_enqueue_correct:
  assumes "pq_inv q"
  shows "\<exists>q'. PQ_enqueue q d p = Inr q' \<and> pq_inv q' \<and>
           current_size q' = current_size q + 1 \<and>
           capacity q' = capacity (check_size q) \<and>
           mset (live_nodes q') = add_mset \<lparr>data = d, priority = p\<rparr> (mset (live_nodes q))"
proof -
  let ?n = "current_size q" and ?x = "\<lparr>data = d, priority = p\<rparr>" and ?q1 = "check_size q"
  from assms have w: "wf q" and o: "ordf (slot_prio q) ?n"
    by (simp_all add: pq_inv_def heap_order_def ordered_upto_ordf)
  note cs = check_size_wf [OF w]
  from w have n0: "0 \<le> ?n" and ini: "initialised q ?n" by (simp_all add: wf_def)
  define q2 where "q2 = ?q1\<lparr>heap := (heap ?q1)[nat ?n := Some ?x]\<rparr>"
  have nlen: "?n < int (length (heap ?q1))" using cs(4,5) by simp
  have wr: "wr ?q1 (current_size ?q1) ?x = Inr q2"
    unfolding q2_def cs(1) by (rule wr_Inr [OF n0 nlen])
  have rd2: "rd q2 k = (if k = ?n then Inr ?x else rd ?q1 k)" for k
    unfolding q2_def by (rule rd_heap_update [OF n0 nlen])
  have rdq: "k < ?n \<Longrightarrow> rd q2 k = rd q k" for k
    using rd2 rd_check_size [OF w] by simp
  have sp2: "k < ?n \<Longrightarrow> slot_prio q2 k = slot_prio q k" for k
    using rdq by (simp add: slot_prio_def)
  have init2: "initialised q2 (?n + 1)"
    unfolding initialised_def
  proof
    fix i assume "i \<in> {0..<?n + 1}"
    then have i: "0 \<le> i" "i \<le> ?n" by auto
    show "\<not> isl (rd q2 i)"
    proof (cases "i = ?n")
      case True
      then show ?thesis by (simp add: rd2)
    next
      case False
      with i have "i < ?n" by simp
      with initialisedD [OF ini i(1) this] rdq show ?thesis by auto
    qed
  qed
  have up: "up_okf (slot_prio q2) (?n + 1) ?n"
    unfolding up_okf_def
  proof (intro conjI allI impI)
    fix j assume j: "0 < j \<and> j < ?n + 1 \<and> j \<noteq> ?n"
    then have "j < ?n" "parent j < ?n" using parent_bounds [of j] by auto
    with o j show "slot_prio q2 (parent j) \<le> slot_prio q2 j" by (simp add: sp2 ordf_def)
  next
    fix j assume j: "0 < j \<and> j < ?n + 1 \<and> parent j = ?n \<and> 0 < ?n"
    then have False using parent_bounds [of j] by auto
    then show "slot_prio q2 (parent ?n) \<le> slot_prio q2 j" ..
  qed
  from shift_up_correct [OF init2 n0 _ up]
  obtain q3 where q3: "shift_up ?n q2 = Inr q3" "permuted q2 q3 (?n + 1)"
    "ordf (slot_prio q3) (?n + 1)" by auto
  have c2: "current_size q2 = ?n" "capacity q2 = capacity ?q1" "length (heap q2) = length (heap ?q1)"
    by (simp_all add: q2_def cs(1))
  with q3(2) have c3: "current_size q3 = ?n" "capacity q3 = capacity ?q1"
    "length (heap q3) = length (heap ?q1)" by (simp_all add: permuted_def)
  let ?q' = "q3\<lparr>current_size := ?n + 1\<rparr>"
  have res: "PQ_enqueue q d p = Inr ?q'"
    by (simp add: PQ_enqueue_def Let_def wr c2 q3(1) c3)
  have init3: "initialised q3 (?n + 1)"
    using permuted_initialised [OF q3(2) init2] n0 by simp
  have inv: "pq_inv ?q'"
    using q3(3) init3 c3 cs(4,5) n0
    by (simp add: pq_inv_def wf_def heap_order_def ordered_upto_ordf)
  have t2: "take (nat (?n + 1)) (heap q2) = take (nat ?n) (heap q) @ [Some ?x]"
  proof -
    have "nat (?n + 1) = Suc (nat ?n)" using n0 by simp
    moreover have "nat ?n < length (heap q2)" using nlen n0 c2 by simp
    moreover have "heap q2 ! nat ?n = Some ?x" using nlen n0 by (simp add: q2_def)
    moreover have "take (nat ?n) (heap q2) = take (nat ?n) (heap q)"
      using w by (auto simp: q2_def cs(3) wf_def)
    ultimately show ?thesis by (simp add: take_Suc_conv_app_nth)
  qed
  have "mset (live_nodes ?q') = image_mset the (mset (take (nat (?n + 1)) (heap q2)))"
    using q3(2) by (simp add: mset_live_nodes permuted_def)
  also have "\<dots> = add_mset ?x (mset (live_nodes q))"
    by (simp add: t2 mset_live_nodes)
  finally have ms: "mset (live_nodes ?q') = add_mset ?x (mset (live_nodes q))" .
  from res inv ms c3 show ?thesis by simp
qed

lemma PQ_dequeue_node_correct:
  assumes "pq_inv q" "0 < current_size q"
  shows "\<exists>n q'. PQ_dequeue_node q = Inr (n, q') \<and> rd q 0 = Inr n \<and> pq_inv q' \<and>
           current_size q' = current_size q - 1 \<and> capacity q' = capacity q \<and>
           mset (live_nodes q) = add_mset n (mset (live_nodes q')) \<and>
           shift_down 0 (q\<lparr>heap := (heap q)[0 := heap q ! nat (current_size q - 1)],
                           current_size := current_size q - 1\<rparr>) = Inr q'"
proof -
  let ?n = "current_size q"
  let ?m = "?n - 1"
  from assms have w: "wf q" and o: "ordf (slot_prio q) ?n"
    by (simp_all add: pq_inv_def heap_order_def ordered_upto_ordf)
  from w have ini: "initialised q ?n" and cap: "?n \<le> capacity q" "int (length (heap q)) = capacity q"
    by (simp_all add: wf_def)
  from initialisedD [OF ini, of 0] assms(2) obtain r where r: "rd q 0 = Inr r" by auto
  from initialisedD [OF ini, of ?m] assms(2) obtain l where l: "rd q ?m = Inr l" by auto
  from r have len0: "0 < int (length (heap q))" and h0: "heap q ! 0 = Some r"
    by (auto simp: rd_Inr_iff)
  from l assms(2) have hm: "heap q ! nat ?m = Some l" by (simp add: rd_Inr_iff)
  define q1 where "q1 = q\<lparr>heap := (heap q)[nat 0 := Some l]\<rparr>"
  have wr: "wr q 0 l = Inr q1" unfolding q1_def by (rule wr_Inr) (use len0 in auto)
  define q1' where "q1' = q1\<lparr>current_size := current_size q1 - 1\<rparr>"
  have q1'_eq: "q1' = q\<lparr>heap := (heap q)[0 := heap q ! nat ?m], current_size := ?m\<rparr>"
    by (simp add: q1'_def q1_def hm)
  have rd1: "rd q1' k = (if k = 0 then Inr l else rd q k)" for k
    unfolding q1'_def q1_def using rd_heap_update [of 0 q l k] len0 by simp
  have c1: "current_size q1' = ?m" "capacity q1' = capacity q" "length (heap q1') = length (heap q)"
    "heap q1' = (heap q)[0 := Some l]"
    by (simp_all add: q1'_def q1_def)
  have deq: "PQ_dequeue_node q =
               (case shift_down 0 q1' of Inl e \<Rightarrow> Inl e | Inr q2 \<Rightarrow> Inr (r, q2))"
    by (simp add: PQ_dequeue_node_def r l wr q1'_def)
  have tn: "take (nat ?n) (heap q) = take (nat ?m) (heap q) @ [Some l]"
  proof -
    have "nat ?n = Suc (nat ?m)" using assms(2) by simp
    moreover have "nat ?m < length (heap q)" using cap assms(2) by simp
    ultimately show ?thesis using hm by (simp add: take_Suc_conv_app_nth)
  qed
  have "\<exists>q'. shift_down 0 q1' = Inr q' \<and> permuted q1' q' ?m \<and> ordf (slot_prio q') ?m"
  proof (cases "?m = 0")
    case True
    have "shift_down 0 q1' = Inr q1'"
      by (rule shift_down_leaf [of _ _ l]) (simp_all add: rd1 c1 True left_child_def)
    moreover have "ordf (slot_prio q1') ?m" using True by (simp add: ordf_def)
    ultimately show ?thesis using permuted_refl by blast
  next
    case False
    with assms(2) have m: "0 < ?m" by simp
    have i1: "initialised q1' (?m + 1)"
      unfolding initialised_def
    proof
      fix i assume "i \<in> {0..<?m + 1}"
      then have "0 \<le> i" "i < ?n" by auto
      from initialisedD [OF ini this] show "\<not> isl (rd q1' i)" by (auto simp: rd1)
    qed
    have eq: "slot_prio q1' ?m = slot_prio q1' 0"
      using m l by (simp add: slot_prio_def rd1)
    have d: "down_okf (slot_prio q1') ?m 0"
      unfolding down_okf_def
    proof (intro conjI allI impI)
      fix j assume j: "0 < j \<and> j < ?m \<and> parent j \<noteq> 0"
      then have "0 < parent j" using parent_bounds [of j] by auto
      with j have "slot_prio q1' (parent j) = slot_prio q (parent j)" "slot_prio q1' j = slot_prio q j"
        by (simp_all add: slot_prio_def rd1)
      with o j show "slot_prio q1' (parent j) \<le> slot_prio q1' j" by (simp add: ordf_def)
    next
      fix j assume "0 < j \<and> j < ?m \<and> parent j = 0 \<and> (0::int) < 0"
      then show "slot_prio q1' (parent 0) \<le> slot_prio q1' j" by simp
    qed
    from shift_down_correct [OF c1(1) i1 _ m eq d] show ?thesis by simp
  qed
  then obtain q' where q': "shift_down 0 q1' = Inr q'" "permuted q1' q' ?m"
    "ordf (slot_prio q') ?m" by blast
  from q'(2) c1 have c': "current_size q' = ?m" "capacity q' = capacity q"
    "length (heap q') = length (heap q)"
    "mset (take (nat ?m) (heap q')) = mset ((take (nat ?m) (heap q))[0 := Some l])"
    by (simp_all add: permuted_def take_update_swap)
  have im: "initialised q1' ?m"
    unfolding initialised_def
  proof
    fix i assume "i \<in> {0..<?m}"
    then have "0 \<le> i" "i < ?n" by auto
    from initialisedD [OF ini this] show "\<not> isl (rd q1' i)" by (auto simp: rd1)
  qed
  have "initialised q' ?m" using permuted_initialised [OF q'(2) im] assms(2) by simp
  with q'(3) c' cap assms(2) have inv: "pq_inv q'"
    by (simp add: pq_inv_def wf_def heap_order_def ordered_upto_ordf)
  have ms: "mset (live_nodes q) = add_mset r (mset (live_nodes q'))"
  proof (cases "?m = 0")
    case True
    then have "nat ?n = 1" by simp
    with len0 h0 have "take (nat ?n) (heap q) = [Some r]"
      by (cases "heap q") auto
    with True c' show ?thesis by (simp add: mset_live_nodes)
  next
    case False
    with assms(2) cap have pos: "0 < length (take (nat ?m) (heap q))" by simp
    then have t0: "take (nat ?m) (heap q) ! 0 = Some r" using h0 by simp
    have "mset ((take (nat ?m) (heap q))[0 := Some l]) =
        add_mset (Some l) (mset (take (nat ?m) (heap q)) - {#Some r#})"
      using pos t0 by (simp add: mset_update)
    moreover have "Some r \<in># mset (take (nat ?m) (heap q))"
      using nth_mem [OF pos] t0 by simp
    ultimately have "add_mset (Some r) (mset (take (nat ?m) (heap q'))) =
        mset (take (nat ?n) (heap q))"
      by (simp add: c'(4) tn)
    then have "image_mset the (mset (take (nat ?n) (heap q))) =
        image_mset the (add_mset (Some r) (mset (take (nat ?m) (heap q'))))" by simp
    then show ?thesis by (simp add: mset_live_nodes c'(1))
  qed
  from deq q'(1) have "PQ_dequeue_node q = Inr (r, q')" by simp
  with r inv c' ms q'(1) show ?thesis unfolding q1'_eq by simp
qed

lemma PQ_dequeue_of_node: "PQ_dequeue_node q = Inr (n, q') \<Longrightarrow> PQ_dequeue q = Inr (data n, q')"
  by (simp add: PQ_dequeue_def)

lemma PQ_dequeue_InrD:
  "PQ_dequeue q = Inr (d, q') \<Longrightarrow> \<exists>n. PQ_dequeue_node q = Inr (n, q') \<and> d = data n"
  by (auto simp: PQ_dequeue_def split: sum.splits)

section \<open>Repeated enqueue and dequeue\<close>

lemma enqueue_all_correct:
  assumes "pq_inv q"
  shows "\<exists>q'. enqueue_all xs q = Inr q' \<and> pq_inv q' \<and>
           current_size q' = current_size q + int (length xs) \<and>
           mset (live_nodes q') = mset xs + mset (live_nodes q) \<and>
           (current_size q + int (length xs) \<le> capacity q \<longrightarrow> capacity q' = capacity q)"
  using assms
proof (induction xs arbitrary: q)
  case Nil
  then show ?case by simp
next
  case (Cons x xs)
  from PQ_enqueue_correct [OF Cons.prems, of "data x" "priority x"]
  obtain q1 where q1: "PQ_enqueue q (data x) (priority x) = Inr q1" "pq_inv q1"
    "current_size q1 = current_size q + 1" "capacity q1 = capacity (check_size q)"
    "mset (live_nodes q1) = add_mset x (mset (live_nodes q))" by auto
  from Cons.IH [OF q1(2)] obtain q' where q': "enqueue_all xs q1 = Inr q'" "pq_inv q'"
    "current_size q' = current_size q1 + int (length xs)"
    "mset (live_nodes q') = mset xs + mset (live_nodes q1)"
    "current_size q1 + int (length xs) \<le> capacity q1 \<longrightarrow> capacity q' = capacity q1" by auto
  from Cons.prems have w: "wf q" by (simp add: pq_inv_def)
  have "current_size q + int (length (x # xs)) \<le> capacity q \<longrightarrow> capacity q' = capacity q"
    using q'(5) q1(3,4) check_size_wf(2) [OF w] by auto
  with q1 q' show ?case by simp
qed

lemma dequeue_nodes_n_correct:
  assumes "pq_inv q" "int k \<le> current_size q"
  shows "\<exists>ns q'. dequeue_nodes_n k q = Inr (ns, q') \<and> pq_inv q' \<and>
           current_size q' = current_size q - int k \<and> capacity q' = capacity q \<and>
           mset (live_nodes q) = mset ns + mset (live_nodes q') \<and>
           sorted (map priority ns) \<and>
           (\<forall>x\<in>set ns. \<forall>y\<in>set (live_nodes q'). priority x \<le> priority y)"
  using assms
proof (induction k arbitrary: q)
  case 0
  then show ?case by simp
next
  case (Suc k)
  then have pos: "0 < current_size q" by simp
  from PQ_dequeue_node_correct [OF Suc.prems(1) pos]
  obtain r q1 where r: "PQ_dequeue_node q = Inr (r, q1)" "rd q 0 = Inr r" "pq_inv q1"
    "current_size q1 = current_size q - 1" "capacity q1 = capacity q"
    "mset (live_nodes q) = add_mset r (mset (live_nodes q1))" by blast
  from Suc.prems r(4) have "int k \<le> current_size q1" by simp
  from Suc.IH [OF r(3) this]
  obtain ns q' where ns: "dequeue_nodes_n k q1 = Inr (ns, q')" "pq_inv q'"
    "current_size q' = current_size q1 - int k" "capacity q' = capacity q1"
    "mset (live_nodes q1) = mset ns + mset (live_nodes q')"
    "sorted (map priority ns)"
    "\<forall>x\<in>set ns. \<forall>y\<in>set (live_nodes q'). priority x \<le> priority y" by blast
  have sub: "set (live_nodes q1) = set ns \<union> set (live_nodes q')"
    using ns(5) by (metis set_mset_mset set_mset_union)
  have sub2: "set (live_nodes q) = insert r (set (live_nodes q1))"
    using r(6) by (metis set_mset_mset set_mset_add_mset_insert)
  have least: "\<forall>x\<in>set (live_nodes q1). priority r \<le> priority x"
    using root_is_minimum [OF Suc.prems(1) r(2)] sub2 by simp
  have "dequeue_nodes_n (Suc k) q = Inr (r # ns, q')" using r(1) ns(1) by simp
  moreover have "sorted (map priority (r # ns))" using ns(6) least sub by simp
  moreover have "\<forall>x\<in>set (r # ns). \<forall>y\<in>set (live_nodes q'). priority x \<le> priority y"
    using ns(7) least sub by simp
  moreover have "mset (live_nodes q) = mset (r # ns) + mset (live_nodes q')"
    using r(6) ns(5) by simp
  moreover have "current_size q' = current_size q - int (Suc k)" "capacity q' = capacity q"
    using ns(3,4) r(4,5) by simp_all
  ultimately have "dequeue_nodes_n (Suc k) q = Inr (r # ns, q') \<and> pq_inv q' \<and>
           current_size q' = current_size q - int (Suc k) \<and> capacity q' = capacity q \<and>
           mset (live_nodes q) = mset (r # ns) + mset (live_nodes q') \<and>
           sorted (map priority (r # ns)) \<and>
           (\<forall>x\<in>set (r # ns). \<forall>y\<in>set (live_nodes q'). priority x \<le> priority y)"
    using ns(2) by blast
  then show ?case by blast
qed

lemma dequeue_n_of_nodes:
  "dequeue_nodes_n k q = Inr (ns, q') \<Longrightarrow> dequeue_n k q = Inr (map data ns, q')"
proof (induction k arbitrary: q ns)
  case 0
  then show ?case by simp
next
  case (Suc k)
  then obtain r q1 ms where s: "PQ_dequeue_node q = Inr (r, q1)"
    "dequeue_nodes_n k q1 = Inr (ms, q')" "ns = r # ms"
    by (auto split: sum.splits)
  from Suc.IH [OF s(2)] s(1,3) show ?case by (simp add: PQ_dequeue_def)
qed

lemma extract_all_sorted:
  assumes "pq_inv q" "int k = current_size q"
  shows "\<exists>ns q'. dequeue_nodes_n k q = Inr (ns, q') \<and> dequeue_n k q = Inr (map data ns, q') \<and>
           pq_inv q' \<and> current_size q' = 0 \<and> capacity q' = capacity q \<and>
           mset ns = mset (live_nodes q) \<and> sorted (map priority ns)"
proof -
  from dequeue_nodes_n_correct [OF assms(1), of k] assms(2)
  obtain ns q' where d: "dequeue_nodes_n k q = Inr (ns, q')" "pq_inv q'"
    "current_size q' = current_size q - int k" "capacity q' = capacity q"
    "mset (live_nodes q) = mset ns + mset (live_nodes q')" "sorted (map priority ns)"
    by auto
  from d(3) assms(2) have z: "current_size q' = 0" by simp
  with d(5) have "mset ns = mset (live_nodes q)" by (simp add: live_nodes_empty)
  with d z dequeue_n_of_nodes [OF d(1)] show ?thesis by blast
qed

lemma sorted_priorities_unique:
  assumes "sorted (map priority ns)" "mset ns = mset arr"
  shows "map priority ns = sort (map priority arr)"
proof -
  from assms(2) have "mset (map priority ns) = mset (map priority arr)" by simp
  from properties_for_sort [OF this assms(1)] show ?thesis by simp
qed

lemma sorted_by_priority_unique:
  assumes "sorted (map priority ns)" "mset ns = mset es"
    "sorted_wrt (\<lambda>a b. priority a < priority b) es"
  shows "ns = es"
proof -
  from assms(3) have "sorted_wrt (<) (map priority es)" by (simp add: sorted_wrt_map)
  then have se: "sorted (map priority es)" and de: "distinct (map priority es)"
    by (simp_all add: strict_sorted_iff)
  from assms(2) have m: "mset (map priority ns) = mset (map priority es)" by simp
  from properties_for_sort [OF m assms(1)] properties_for_sort [OF refl se]
  have eq: "map priority ns = map priority es" by simp
  from assms(2) have "set ns = set es" by (rule mset_eq_setD)
  moreover from de have "inj_on priority (set es)" by (simp add: distinct_map)
  ultimately have "inj_on priority (set ns \<union> set es)" by simp
  from inj_on_map_eq_map [OF this] eq show ?thesis by simp
qed

lemma sorted_nodes_unique:
  assumes "sorted (map priority ns)" "mset ns = mset arr"
    "sorted (map priority ms)" "mset ms = mset arr" "distinct (map priority arr)"
  shows "ns = ms"
proof -
  from sorted_priorities_unique [OF assms(1,2)] sorted_priorities_unique [OF assms(3,4)]
  have eq: "map priority ns = map priority ms" by simp
  from assms(2,4) have "set ns = set arr" "set ms = set arr" by (auto dest: mset_eq_setD)
  moreover from assms(5) have "inj_on priority (set arr)" by (simp add: distinct_map)
  ultimately have "inj_on priority (set ns \<union> set ms)" by simp
  from inj_on_map_eq_map [OF this] eq show ?thesis by simp
qed

section \<open>Heapify\<close>

lemma pq_inv_heapify_init:
  "0 \<le> sz \<Longrightarrow> pq_inv (PQ_create\<lparr>capacity := sz, heap := malloc_slots sz\<rparr>)"
  by (simp add: pq_inv_def wf_def heap_order_def ordered_upto_def initialised_def
      PQ_create_def malloc_slots_def)

lemma heapify_loop_inv: "pq_inv pq \<Longrightarrow> heapify_loop arr sz i pq = Inr q \<Longrightarrow> pq_inv q"
proof (induction arr sz i pq rule: heapify_loop.induct)
  case (1 arr sz i pq)
  show ?case
  proof (cases "i < sz")
    case False
    with "1.prems" show ?thesis by (simp add: heapify_loop.simps)
  next
    case True
    with "1.prems"(2) obtain n pq1 where s: "arr_rd arr i = Inr n"
      "PQ_enqueue pq (data n) (priority n) = Inr pq1" "heapify_loop arr sz (i + 1) pq1 = Inr q"
      by (subst (asm) heapify_loop.simps) (auto simp del: heapify_loop.simps split: sum.splits)
    from PQ_enqueue_correct [OF "1.prems"(1), of "data n" "priority n"] s(2)
    have "pq_inv pq1" by auto
    from "1.IH" [OF True s(1,2) this s(3)] show ?thesis .
  qed
qed

lemma heapify_loop_enqueue_all:
  "0 \<le> i \<Longrightarrow> sz \<le> int (length arr) \<Longrightarrow>
   heapify_loop arr sz i pq = enqueue_all (drop (nat i) (take (nat sz) arr)) pq"
proof (induction arr sz i pq rule: heapify_loop.induct)
  case (1 arr sz i pq)
  show ?case
  proof (cases "i < sz")
    case False
    then show ?thesis by (subst heapify_loop.simps) (simp del: heapify_loop.simps)
  next
    case True
    let ?t = "take (nat sz) arr"
    from True "1.prems" have len: "nat i < length ?t" by simp
    have rd: "arr_rd arr i = Inr (arr ! nat i)" using True "1.prems" by (simp add: arr_rd_def)
    have dr: "drop (nat i) ?t = arr ! nat i # drop (nat (i + 1)) ?t"
      using Cons_nth_drop_Suc [OF len] len "1.prems"(1) by (simp add: nat_add_distrib)
    show ?thesis
    proof (cases "PQ_enqueue pq (data (arr ! nat i)) (priority (arr ! nat i))")
      case (Inl e)
      then show ?thesis using True rd dr
        by (subst heapify_loop.simps) (simp del: heapify_loop.simps)
    next
      case (Inr pq1)
      from "1.IH" [OF True rd Inr] "1.prems"
      have "heapify_loop arr sz (i + 1) pq1 = enqueue_all (drop (nat (i + 1)) ?t) pq1"
        by (simp del: heapify_loop.simps)
      then show ?thesis using True rd dr Inr
        by (subst heapify_loop.simps) (simp del: heapify_loop.simps)
    qed
  qed
qed

lemma PQ_heapify_enqueue_all:
  "PQ_heapify arr (int (length arr)) =
     enqueue_all arr (PQ_create\<lparr>capacity := int (length arr),
                                heap := malloc_slots (int (length arr))\<rparr>)"
  using heapify_loop_enqueue_all [of 0 "int (length arr)" arr]
  by (simp add: PQ_heapify_def del: heapify_loop.simps)

section \<open>Reachable queues\<close>

lemma reachable_pq_inv: "reachable q \<Longrightarrow> pq_inv q"
proof (induction rule: reachable.induct)
  case create
  show ?case by (rule pq_inv_create)
next
  case (enqueue q d p q')
  with PQ_enqueue_correct [of q d p] show ?case by auto
next
  case (dequeue q d q')
  with PQ_dequeue_node_correct [of q] PQ_dequeue_InrD [of q d q'] show ?case by auto
qed

lemma reachable_h_pq_inv: "reachable_h q \<Longrightarrow> pq_inv q"
proof (induction rule: reachable_h.induct)
  case create
  show ?case by (rule pq_inv_create)
next
  case (heapify sz arr q)
  then show ?case using heapify_loop_inv [OF pq_inv_heapify_init]
    by (simp add: PQ_heapify_def del: heapify_loop.simps)
next
  case (enqueue q d p q')
  with PQ_enqueue_correct [of q d p] show ?case by auto
next
  case (dequeue q d q')
  with PQ_dequeue_node_correct [of q] PQ_dequeue_InrD [of q d q'] show ?case by auto
qed

section \<open>The claims\<close>

text \<open>
  C1. In every queue obtained from \<open>PQ_create\<close> by a finite sequence of \<open>PQ_enqueue\<close> and
  \<open>PQ_dequeue\<close> calls (the latter only with \<open>current_size > 0\<close>), every live index
  \<open>i > 0\<close> and its parent index \<open>floor((i - 1) / 2)\<close>, which is what \<open>_parent\<close>
  computes there, hold nodes, and the parent's priority is at most the priority at \<open>i\<close>.
\<close>

theorem heap_order_invariant:
  assumes "reachable q" "0 < i" "i < current_size q"
  shows "parent i = (i - 1) div 2 \<and>
         (\<exists>a b. rd q ((i - 1) div 2) = Inr a \<and> rd q i = Inr b \<and> priority a \<le> priority b)"
proof -
  from reachable_pq_inv [OF assms(1)]
  have ini: "initialised q (current_size q)" and ord: "ordf (slot_prio q) (current_size q)"
    by (simp_all add: pq_inv_def wf_def heap_order_def ordered_upto_ordf)
  from parent_bounds [OF assms(2)] have p: "0 \<le> parent i" "parent i < i" by auto
  from initialisedD [OF ini p(1)] p assms obtain a where a: "rd q (parent i) = Inr a" by auto
  from initialisedD [OF ini _ assms(3)] assms obtain b where b: "rd q i = Inr b" by auto
  from ord assms have "slot_prio q (parent i) \<le> slot_prio q i" by (simp add: ordf_def)
  with a b have "priority a \<le> priority b" by (simp add: slot_prio_def)
  with a b parent_pos [OF assms(2)] show ?thesis by auto
qed

theorem heap_order_invariant_witness:
  "reachable \<lparr>current_size = 2, capacity = 10,
      heap = [Some \<lparr>data = 10, priority = 5\<rparr>, Some \<lparr>data = 30, priority = 8\<rparr>,
              Some \<lparr>data = 30, priority = 8\<rparr>, None, None, None, None, None, None, None]\<rparr> \<and>
   parent 1 = (1 - 1) div 2 \<and>
   (\<exists>a b. rd \<lparr>current_size = 2, capacity = 10,
      heap = [Some \<lparr>data = 10, priority = 5\<rparr>, Some \<lparr>data = 30, priority = 8\<rparr>,
              Some \<lparr>data = 30, priority = 8\<rparr>, None, None, None, None, None, None, None]\<rparr>
        ((1 - 1) div 2) = Inr a \<and>
      rd \<lparr>current_size = 2, capacity = 10,
      heap = [Some \<lparr>data = 10, priority = 5\<rparr>, Some \<lparr>data = 30, priority = 8\<rparr>,
              Some \<lparr>data = 30, priority = 8\<rparr>, None, None, None, None, None, None, None]\<rparr> 1 = Inr b \<and>
      priority a \<le> priority b)"
proof -
  let ?q1 = "\<lparr>current_size = 1, capacity = 10,
      heap = [Some \<lparr>data = 10, priority = 5\<rparr>, None, None, None, None, None, None, None,
              None, None]\<rparr>"
  let ?q2 = "\<lparr>current_size = 2, capacity = 10,
      heap = [Some \<lparr>data = 20, priority = 3\<rparr>, Some \<lparr>data = 10, priority = 5\<rparr>,
              None, None, None, None, None, None, None, None]\<rparr>"
  let ?q3 = "\<lparr>current_size = 3, capacity = 10,
      heap = [Some \<lparr>data = 20, priority = 3\<rparr>, Some \<lparr>data = 10, priority = 5\<rparr>,
              Some \<lparr>data = 30, priority = 8\<rparr>, None, None, None, None, None, None, None]\<rparr>"
  let ?q4 = "\<lparr>current_size = 2, capacity = 10,
      heap = [Some \<lparr>data = 10, priority = 5\<rparr>, Some \<lparr>data = 30, priority = 8\<rparr>,
              Some \<lparr>data = 30, priority = 8\<rparr>, None, None, None, None, None, None, None]\<rparr>"
  have e1: "PQ_enqueue PQ_create 10 5 = Inr ?q1" by code_simp
  have e2: "PQ_enqueue ?q1 20 3 = Inr ?q2" by code_simp
  have e3: "PQ_enqueue ?q2 30 8 = Inr ?q3" by code_simp
  have d4: "PQ_dequeue ?q3 = Inr (20, ?q4)" by code_simp
  have r3: "reachable ?q3"
    by (rule reachable.enqueue [OF reachable.enqueue [OF reachable.enqueue
          [OF reachable.create e1] e2] e3])
  have r: "reachable ?q4" by (rule reachable.dequeue [OF r3 _ d4]) simp
  have i: "(0::int) < 1" "1 < current_size ?q4" by simp_all
  from heap_order_invariant [OF r i] r show ?thesis by simp
qed

text \<open>
  C2. Let \<open>es\<close> be elements listed by strictly increasing priority and \<open>xs\<close> any
  arrangement of the same elements. Enqueuing \<open>xs\<close> in that order into a fresh queue
  succeeds, and \<open>length es\<close> calls of \<open>PQ_dequeue\<close> then succeed and return the payloads
  of \<open>es\<close> in the order of \<open>es\<close>, leaving the queue empty.
\<close>

theorem sorted_extraction:
  assumes "sorted_wrt (\<lambda>a b. priority a < priority b) es" "mset xs = mset es"
  shows "\<exists>q q'. enqueue_all xs PQ_create = Inr q \<and> current_size q = int (length es) \<and>
           dequeue_n (length es) q = Inr (map data es, q') \<and> current_size q' = 0"
proof -
  from assms(2) have len: "length xs = length es" by (rule mset_eq_length)
  from enqueue_all_correct [OF pq_inv_create, of xs]
  obtain q where q: "enqueue_all xs PQ_create = Inr q" "pq_inv q"
    "current_size q = current_size PQ_create + int (length xs)"
    "mset (live_nodes q) = mset xs + mset (live_nodes PQ_create)" by blast
  have c0: "current_size PQ_create = 0" by (simp add: PQ_create_def)
  with q(3) len have cs: "current_size q = int (length es)" by simp
  from q(4) c0 assms(2) have ms: "mset (live_nodes q) = mset es" by (simp add: live_nodes_empty)
  from extract_all_sorted [OF q(2), of "length es"] cs
  obtain ns q' where d: "dequeue_n (length es) q = Inr (map data ns, q')" "current_size q' = 0"
    "mset ns = mset (live_nodes q)" "sorted (map priority ns)" by auto
  from d(3) ms have "mset ns = mset es" by simp
  from sorted_by_priority_unique [OF d(4) this assms(1)] have "ns = es" .
  with q(1) cs d(1,2) show ?thesis by blast
qed

theorem sorted_extraction_witness:
  "sorted_wrt (\<lambda>a b. priority a < priority b)
     [\<lparr>data = 40, priority = 1\<rparr>, \<lparr>data = 20, priority = 3\<rparr>,
      \<lparr>data = 10, priority = 5\<rparr>, \<lparr>data = 30, priority = 8\<rparr>] \<and>
   (\<exists>q q'. enqueue_all [\<lparr>data = 10, priority = 5\<rparr>, \<lparr>data = 20, priority = 3\<rparr>,
                         \<lparr>data = 30, priority = 8\<rparr>, \<lparr>data = 40, priority = 1\<rparr>] PQ_create = Inr q \<and>
      dequeue_n 4 q = Inr ([40, 20, 10, 30], q'))"
proof -
  let ?es = "[\<lparr>data = 40, priority = 1\<rparr>, \<lparr>data = 20, priority = 3\<rparr>,
      \<lparr>data = 10, priority = 5\<rparr>, \<lparr>data = 30, priority = 8\<rparr>]"
  let ?xs = "[\<lparr>data = 10, priority = 5\<rparr>, \<lparr>data = 20, priority = 3\<rparr>,
              \<lparr>data = 30, priority = 8\<rparr>, \<lparr>data = 40, priority = 1\<rparr>]"
  have s: "sorted_wrt (\<lambda>a b. priority a < priority b) ?es" by simp
  have m: "mset ?xs = mset ?es" by (simp add: add_mset_commute)
  have l: "length ?es = 4" by simp
  have d: "map data ?es = [40, 20, 10, 30]" by simp
  from sorted_extraction [OF s m]
  obtain q q' where e: "enqueue_all ?xs PQ_create = Inr q"
    "dequeue_n (length ?es) q = Inr (map data ?es, q')" by blast
  from e(2) have "dequeue_n 4 q = Inr ([40, 20, 10, 30], q')" unfolding l d .
  with e(1) s show ?thesis by blast
qed

text \<open>
  C3. On a well-formed, heap-ordered queue (as every queue that the library produces is, lemma
  \<open>reachable_h_pq_inv\<close>) with \<open>current_size > 0\<close>, \<open>PQ_dequeue\<close>
  returns the payload of a live element (the one in slot 0, returned by \<open>_PQ_dequeue\<close>) whose
  priority is minimal among the live elements; the resulting queue is the result of sift-down
  from index 0 on the queue in which the element at index \<open>current_size - 1\<close> has been
  copied into slot 0 and \<open>current_size\<close> has been decremented, and its \<open>current_size\<close>
  is one less.
\<close>

theorem dequeue_returns_minimum:
  assumes "pq_inv q" "0 < current_size q"
  shows "\<exists>n q'. PQ_dequeue_node q = Inr (n, q') \<and> PQ_dequeue q = Inr (data n, q') \<and>
           rd q 0 = Inr n \<and> n \<in> set (live_nodes q) \<and>
           (\<forall>x\<in>set (live_nodes q). priority n \<le> priority x) \<and>
           current_size q' = current_size q - 1 \<and>
           shift_down 0 (q\<lparr>heap := (heap q)[0 := heap q ! nat (current_size q - 1)],
                           current_size := current_size q - 1\<rparr>) = Inr q'"
proof -
  from PQ_dequeue_node_correct [OF assms]
  obtain n q' where d: "PQ_dequeue_node q = Inr (n, q')" "rd q 0 = Inr n"
    "current_size q' = current_size q - 1"
    "shift_down 0 (q\<lparr>heap := (heap q)[0 := heap q ! nat (current_size q - 1)],
                           current_size := current_size q - 1\<rparr>) = Inr q'" by blast
  have "n \<in> set (live_nodes q)" by (rule root_in_live_nodes [OF assms d(2)])
  moreover have "\<forall>x\<in>set (live_nodes q). priority n \<le> priority x"
    using root_is_minimum [OF assms(1) d(2)] by blast
  moreover have "PQ_dequeue q = Inr (data n, q')" by (rule PQ_dequeue_of_node [OF d(1)])
  ultimately show ?thesis using d by blast
qed

theorem dequeue_returns_minimum_witness:
  "pq_inv \<lparr>current_size = 3, capacity = 3,
      heap = [Some \<lparr>data = 40, priority = 1\<rparr>, Some \<lparr>data = 10, priority = 5\<rparr>,
              Some \<lparr>data = 20, priority = 3\<rparr>]\<rparr> \<and>
   PQ_dequeue \<lparr>current_size = 3, capacity = 3,
      heap = [Some \<lparr>data = 40, priority = 1\<rparr>, Some \<lparr>data = 10, priority = 5\<rparr>,
              Some \<lparr>data = 20, priority = 3\<rparr>]\<rparr> =
     Inr (40, \<lparr>current_size = 2, capacity = 3,
      heap = [Some \<lparr>data = 20, priority = 3\<rparr>, Some \<lparr>data = 10, priority = 5\<rparr>,
              Some \<lparr>data = 20, priority = 3\<rparr>]\<rparr>)"
proof -
  let ?q = "\<lparr>current_size = 3, capacity = 3,
      heap = [Some \<lparr>data = 40, priority = 1\<rparr>, Some \<lparr>data = 10, priority = 5\<rparr>,
              Some \<lparr>data = 20, priority = 3\<rparr>]\<rparr>"
  have inv: "pq_inv ?q" by code_simp
  have pos: "0 < current_size ?q" by simp
  have r0: "rd ?q 0 = Inr \<lparr>data = 40, priority = 1\<rparr>" by code_simp
  have sd: "shift_down 0 (?q\<lparr>heap := (heap ?q)[0 := heap ?q ! nat (current_size ?q - 1)],
                           current_size := current_size ?q - 1\<rparr>) =
     Inr \<lparr>current_size = 2, capacity = 3,
      heap = [Some \<lparr>data = 20, priority = 3\<rparr>, Some \<lparr>data = 10, priority = 5\<rparr>,
              Some \<lparr>data = 20, priority = 3\<rparr>]\<rparr>" by code_simp
  from dequeue_returns_minimum [OF inv pos] r0 sd inv show ?thesis by auto
qed

text \<open>
  C4. On a well-formed, heap-ordered queue (as every queue that the library produces is, lemma
  \<open>reachable_h_pq_inv\<close>) with \<open>current_size > 0\<close>, \<open>PQ_peek\<close> returns the payload
  of the element in slot 0, that element is live and its priority is minimal among the live
  elements, and the queue (counters and slots) is left as it was.
\<close>

theorem peek_returns_minimum:
  assumes "pq_inv q" "0 < current_size q"
  shows "\<exists>n. rd q 0 = Inr n \<and> PQ_peek q = Inr (data n, q) \<and> n \<in> set (live_nodes q) \<and>
           (\<forall>x\<in>set (live_nodes q). priority n \<le> priority x)"
proof -
  from assms have "initialised q (current_size q)" by (simp add: pq_inv_def wf_def)
  from initialisedD [OF this _ assms(2)] obtain n where n: "rd q 0 = Inr n" by auto
  have "n \<in> set (live_nodes q)" by (rule root_in_live_nodes [OF assms n])
  moreover have "\<forall>x\<in>set (live_nodes q). priority n \<le> priority x"
    using root_is_minimum [OF assms(1) n] by blast
  moreover have "PQ_peek q = Inr (data n, q)" using n by (simp add: PQ_peek_def)
  ultimately show ?thesis using n by blast
qed

theorem peek_returns_minimum_witness:
  "pq_inv \<lparr>current_size = 4, capacity = 10,
      heap = [Some \<lparr>data = 40, priority = 1\<rparr>, Some \<lparr>data = 20, priority = 3\<rparr>,
              Some \<lparr>data = 30, priority = 8\<rparr>, Some \<lparr>data = 10, priority = 5\<rparr>,
              None, None, None, None, None, None]\<rparr> \<and>
   PQ_peek \<lparr>current_size = 4, capacity = 10,
      heap = [Some \<lparr>data = 40, priority = 1\<rparr>, Some \<lparr>data = 20, priority = 3\<rparr>,
              Some \<lparr>data = 30, priority = 8\<rparr>, Some \<lparr>data = 10, priority = 5\<rparr>,
              None, None, None, None, None, None]\<rparr> =
     Inr (40, \<lparr>current_size = 4, capacity = 10,
      heap = [Some \<lparr>data = 40, priority = 1\<rparr>, Some \<lparr>data = 20, priority = 3\<rparr>,
              Some \<lparr>data = 30, priority = 8\<rparr>, Some \<lparr>data = 10, priority = 5\<rparr>,
              None, None, None, None, None, None]\<rparr>)"
proof -
  let ?q = "\<lparr>current_size = 4, capacity = 10,
      heap = [Some \<lparr>data = 40, priority = 1\<rparr>, Some \<lparr>data = 20, priority = 3\<rparr>,
              Some \<lparr>data = 30, priority = 8\<rparr>, Some \<lparr>data = 10, priority = 5\<rparr>,
              None, None, None, None, None, None]\<rparr>"
  have inv: "pq_inv ?q" by code_simp
  have pos: "0 < current_size ?q" by simp
  have r0: "rd ?q 0 = Inr \<lparr>data = 40, priority = 1\<rparr>" by code_simp
  from peek_returns_minimum [OF inv pos] r0 inv show ?thesis by auto
qed

text \<open>
  C5, amended to what the source does. Neither \<open>PQ_peek\<close> nor \<open>_PQ_dequeue\<close> / \<open>PQ_dequeue\<close>
  tests \<open>current_size\<close>. With \<open>current_size = 0\<close> the dequeue functions always end in
  undefined behaviour: the use of slot 0 when it is indeterminate, and otherwise the read of
  \<open>heap[-1]\<close>, outside the block. \<open>PQ_peek\<close> uses slot 0 whatever it holds, which on a
  fresh queue is indeterminate. None of them yields \<open>EmptyQueueError\<close>.
\<close>

theorem empty_queue_is_not_checked:
  assumes "current_size q = 0"
  shows "(PQ_dequeue_node q = Inl UninitialisedRead \<or> PQ_dequeue_node q = Inl OutOfBounds) \<and>
         (PQ_dequeue q = Inl UninitialisedRead \<or> PQ_dequeue q = Inl OutOfBounds) \<and>
         PQ_peek q \<noteq> Inl EmptyQueueError \<and>
         (PQ_peek q = Inl UninitialisedRead \<or> PQ_peek q = Inl OutOfBounds \<or>
          (\<exists>n. heap q \<noteq> [] \<and> hd (heap q) = Some n \<and> PQ_peek q = Inr (data n, q)))"
proof -
  have m1: "rd q (- 1) = Inl OutOfBounds" by (simp add: rd_def)
  have r0: "rd q 0 = Inl UninitialisedRead \<or> rd q 0 = Inl OutOfBounds \<or>
            (\<exists>n. heap q \<noteq> [] \<and> hd (heap q) = Some n \<and> rd q 0 = Inr n)"
    by (cases "heap q") (auto simp: rd_def split: option.splits)
  have d: "PQ_dequeue_node q = Inl UninitialisedRead \<or> PQ_dequeue_node q = Inl OutOfBounds"
    using r0 m1 assms by (auto simp: PQ_dequeue_node_def)
  then have "PQ_dequeue q = Inl UninitialisedRead \<or> PQ_dequeue q = Inl OutOfBounds"
    by (auto simp: PQ_dequeue_def)
  moreover have "PQ_peek q = Inl UninitialisedRead \<or> PQ_peek q = Inl OutOfBounds \<or>
          (\<exists>n. heap q \<noteq> [] \<and> hd (heap q) = Some n \<and> PQ_peek q = Inr (data n, q))"
    using r0 by (auto simp: PQ_peek_def)
  moreover from this have "PQ_peek q \<noteq> Inl EmptyQueueError" by auto
  ultimately show ?thesis using d by blast
qed

theorem empty_queue_is_not_checked_witness:
  "current_size PQ_create = 0 \<and>
   PQ_dequeue_node PQ_create = Inl UninitialisedRead \<and>
   PQ_dequeue PQ_create = Inl UninitialisedRead \<and>
   PQ_peek PQ_create = Inl UninitialisedRead"
proof -
  have c: "current_size PQ_create = 0" by (simp add: PQ_create_def)
  have h: "hd (heap PQ_create) = None"
    by (simp add: PQ_create_def malloc_slots_def PQ_INITIAL_SIZE_def)
  have b: "PQ_dequeue_node PQ_create \<noteq> Inl OutOfBounds" "PQ_dequeue PQ_create \<noteq> Inl OutOfBounds"
    "PQ_peek PQ_create \<noteq> Inl OutOfBounds" by code_simp+
  from empty_queue_is_not_checked [OF c] c h b show ?thesis by auto
qed

theorem empty_queue_counterexample:
  "current_size PQ_create = 0 \<and>
   PQ_peek PQ_create = Inl UninitialisedRead \<and>
   PQ_peek PQ_create \<noteq> Inl EmptyQueueError \<and>
   PQ_dequeue_node PQ_create = Inl UninitialisedRead \<and>
   PQ_dequeue_node PQ_create \<noteq> Inl EmptyQueueError \<and>
   PQ_dequeue PQ_create = Inl UninitialisedRead \<and>
   PQ_dequeue PQ_create \<noteq> Inl EmptyQueueError"
  by code_simp

text \<open>
  C6, amended to what the source does. In a step of \<open>_shift_down\<close> at an index \<open>i >= 0\<close> a child
  index is compared if it is at most \<open>current_size\<close> (the guards are \<open>l <= current_size\<close>
  and \<open>r <= current_size\<close>, so the slot at index \<open>current_size\<close> is examined too).
  When the examined slots hold nodes, the index \<open>m\<close> the step selects is an examined index
  of minimal priority, and the lowest such index (so \<open>i\<close> wins ties over its children and
  the left child over the right one). If \<open>m \<noteq> i\<close> the slots \<open>i\<close> and \<open>m\<close> are
  exchanged, all others are kept, and the procedure continues at \<open>m\<close>; otherwise it stops
  with the queue unchanged.
\<close>

theorem shift_down_step_selects_least:
  assumes "0 \<le> i" "list_all (\<lambda>c. \<not> isl (rd q c)) (examined q i)"
  shows "\<exists>m\<in>set (examined q i).
           (\<forall>k\<in>set (examined q i).
              slot_prio q m \<le> slot_prio q k \<and> (slot_prio q k = slot_prio q m \<longrightarrow> m \<le> k)) \<and>
           (m = i \<longrightarrow> shift_down i q = Inr q) \<and>
           (m \<noteq> i \<longrightarrow>
              (\<exists>q1. swap i m q = Inr q1 \<and> shift_down i q = shift_down m q1 \<and>
                 rd q1 i = rd q m \<and> rd q1 m = rd q i \<and>
                 (\<forall>k. k \<noteq> i \<and> k \<noteq> m \<longrightarrow> rd q1 k = rd q k)))"
proof -
  let ?P = "slot_prio q"
  let ?l = "left_child i" and ?r = "right_child i"
  define m1 where "m1 = (if ?l \<le> current_size q \<and> ?P ?l < ?P i then ?l else i)"
  define m2 where "m2 = (if ?r \<le> current_size q \<and> ?P ?r < ?P m1 then ?r else m1)"
  have lr: "i < ?l" "?l < ?r" using assms(1) by (auto simp: left_child_def right_child_def)
  from assms(2) obtain b where b: "rd q i = Inr b"
    by (cases "rd q i") (auto simp: examined_def)
  have rl: "?l \<le> current_size q \<Longrightarrow> \<not> isl (rd q ?l)"
    using assms(2) by (auto simp: examined_def list_all_iff)
  have rr: "?r \<le> current_size q \<Longrightarrow> \<not> isl (rd q ?r)"
    using assms(2) by (auto simp: examined_def list_all_iff)
  have step: "shift_down i q =
           (if i \<noteq> m2 then (case swap i m2 q of Inl e \<Rightarrow> Inl e | Inr q1 \<Rightarrow> shift_down m2 q1)
            else Inr q)"
    unfolding m1_def m2_def by (rule shift_down_step [OF b rl rr])
  have mem: "m2 \<in> set (examined q i)"
    by (auto simp: examined_def m1_def m2_def)
  have least: "\<forall>k\<in>set (examined q i). ?P m2 \<le> ?P k \<and> (?P k = ?P m2 \<longrightarrow> m2 \<le> k)"
    using lr by (auto simp: examined_def m1_def m2_def)
  have stop: "m2 = i \<longrightarrow> shift_down i q = Inr q" using step by simp
  have cont: "m2 \<noteq> i \<longrightarrow>
              (\<exists>q1. swap i m2 q = Inr q1 \<and> shift_down i q = shift_down m2 q1 \<and>
                 rd q1 i = rd q m2 \<and> rd q1 m2 = rd q i \<and>
                 (\<forall>k. k \<noteq> i \<and> k \<noteq> m2 \<longrightarrow> rd q1 k = rd q k))"
  proof
    assume ne: "m2 \<noteq> i"
    from mem assms(2) have "\<not> isl (rd q m2)" by (simp add: list_all_iff)
    then obtain c where c: "rd q m2 = Inr c" by (cases "rd q m2") auto
    from swap_effect [OF b c] obtain q1 where q1: "swap i m2 q = Inr q1"
      "\<forall>k. rd q1 k = (if k = m2 then Inr b else if k = i then Inr c else rd q k)" by blast
    from q1 ne b c step have "shift_down i q = shift_down m2 q1" "rd q1 i = rd q m2"
      "rd q1 m2 = rd q i" "\<forall>k. k \<noteq> i \<and> k \<noteq> m2 \<longrightarrow> rd q1 k = rd q k" by auto
    with q1(1) show "\<exists>q1. swap i m2 q = Inr q1 \<and> shift_down i q = shift_down m2 q1 \<and>
                 rd q1 i = rd q m2 \<and> rd q1 m2 = rd q i \<and>
                 (\<forall>k. k \<noteq> i \<and> k \<noteq> m2 \<longrightarrow> rd q1 k = rd q k)" by blast
  qed
  from mem least stop cont show ?thesis by blast
qed

theorem shift_down_step_selects_least_witness:
  "list_all (\<lambda>c. \<not> isl (rd \<lparr>current_size = 1, capacity = 2,
       heap = [Some \<lparr>data = 0, priority = 5\<rparr>, Some \<lparr>data = 1, priority = 1\<rparr>]\<rparr> c))
     (examined \<lparr>current_size = 1, capacity = 2,
       heap = [Some \<lparr>data = 0, priority = 5\<rparr>, Some \<lparr>data = 1, priority = 1\<rparr>]\<rparr> 0) \<and>
   examined \<lparr>current_size = 1, capacity = 2,
       heap = [Some \<lparr>data = 0, priority = 5\<rparr>, Some \<lparr>data = 1, priority = 1\<rparr>]\<rparr> 0 = [0, 1] \<and>
   (\<exists>q1. swap 0 1 \<lparr>current_size = 1, capacity = 2,
       heap = [Some \<lparr>data = 0, priority = 5\<rparr>, Some \<lparr>data = 1, priority = 1\<rparr>]\<rparr> = Inr q1 \<and>
     shift_down 0 \<lparr>current_size = 1, capacity = 2,
       heap = [Some \<lparr>data = 0, priority = 5\<rparr>, Some \<lparr>data = 1, priority = 1\<rparr>]\<rparr> =
     shift_down 1 q1)"
proof -
  let ?q = "\<lparr>current_size = 1, capacity = 2,
       heap = [Some \<lparr>data = 0, priority = 5\<rparr>, Some \<lparr>data = 1, priority = 1\<rparr>]\<rparr>"
  have ex: "examined ?q 0 = [0, 1]" by code_simp
  have rd: "list_all (\<lambda>c. \<not> isl (rd ?q c)) (examined ?q 0)" by code_simp
  have p: "slot_prio ?q 0 = 5" "slot_prio ?q 1 = 1" by code_simp+
  from shift_down_step_selects_least [OF _ rd]
  obtain m where m: "m \<in> set (examined ?q 0)"
    "\<forall>k\<in>set (examined ?q 0). slot_prio ?q m \<le> slot_prio ?q k"
    "m \<noteq> 0 \<longrightarrow> (\<exists>q1. swap 0 m ?q = Inr q1 \<and> shift_down 0 ?q = shift_down m q1)"
    by auto
  from m(1,2) p have "m = 1" unfolding ex by auto
  with m(3) rd ex show ?thesis by simp
qed

theorem shift_down_examines_index_count_counterexample:
  "enqueue_all [\<lparr>data = 10, priority = 5\<rparr>, \<lparr>data = 20, priority = 3\<rparr>] PQ_create =
     Inr \<lparr>current_size = 2, capacity = 10,
       heap = [Some \<lparr>data = 20, priority = 3\<rparr>, Some \<lparr>data = 10, priority = 5\<rparr>,
               None, None, None, None, None, None, None, None]\<rparr> \<and>
   shift_down 0 \<lparr>current_size = 2, capacity = 10,
       heap = [Some \<lparr>data = 20, priority = 3\<rparr>, Some \<lparr>data = 10, priority = 5\<rparr>,
               None, None, None, None, None, None, None, None]\<rparr> = Inl UninitialisedRead \<and>
   shift_down_strict 0 \<lparr>current_size = 2, capacity = 10,
       heap = [Some \<lparr>data = 20, priority = 3\<rparr>, Some \<lparr>data = 10, priority = 5\<rparr>,
               None, None, None, None, None, None, None, None]\<rparr> =
     Inr \<lparr>current_size = 2, capacity = 10,
       heap = [Some \<lparr>data = 20, priority = 3\<rparr>, Some \<lparr>data = 10, priority = 5\<rparr>,
               None, None, None, None, None, None, None, None]\<rparr> \<and>
   shift_down 0 \<lparr>current_size = 1, capacity = 2,
       heap = [Some \<lparr>data = 0, priority = 5\<rparr>, Some \<lparr>data = 1, priority = 1\<rparr>]\<rparr> =
     Inr \<lparr>current_size = 1, capacity = 2,
       heap = [Some \<lparr>data = 1, priority = 1\<rparr>, Some \<lparr>data = 0, priority = 5\<rparr>]\<rparr> \<and>
   shift_down_strict 0 \<lparr>current_size = 1, capacity = 2,
       heap = [Some \<lparr>data = 0, priority = 5\<rparr>, Some \<lparr>data = 1, priority = 1\<rparr>]\<rparr> =
     Inr \<lparr>current_size = 1, capacity = 2,
       heap = [Some \<lparr>data = 0, priority = 5\<rparr>, Some \<lparr>data = 1, priority = 1\<rparr>]\<rparr>"
  by code_simp

text \<open>
  C7, amended to what the source does. For every list \<open>arr\<close> of \<open>n\<close> nodes, \<open>PQ_heapify arr n\<close>
  returns a queue with \<open>capacity = n\<close> and a block of exactly \<open>n\<close> slots, obtained by
  enqueuing the nodes of \<open>arr\<close> in the given order into the empty queue with that block; the
  queue is well formed and heap-ordered and holds exactly the elements of \<open>arr\<close>. Let
  \<open>ys\<close> be any arrangement of the same nodes, enqueued one at a time into a fresh queue.
  Extracting \<open>n\<close> times from either queue succeeds and yields the elements of \<open>arr\<close>
  with the same sequence of priorities, the sorted one. When the priorities of \<open>arr\<close> are
  pairwise distinct, the two extracted sequences of elements (hence of payloads) are equal;
  among elements of equal priority the order of extraction depends on the order of insertion.
\<close>

theorem heapify_then_extract:
  "\<exists>q. PQ_heapify arr (int (length arr)) = Inr q \<and>
     enqueue_all arr (PQ_create\<lparr>capacity := int (length arr),
                                heap := malloc_slots (int (length arr))\<rparr>) = Inr q \<and>
     pq_inv q \<and> current_size q = int (length arr) \<and> capacity q = int (length arr) \<and>
     length (heap q) = length arr \<and> mset (live_nodes q) = mset arr \<and>
     (\<forall>ys. mset ys = mset arr \<longrightarrow>
        (\<exists>qe ns ms q1 q2.
           enqueue_all ys PQ_create = Inr qe \<and>
           dequeue_nodes_n (length arr) q = Inr (ns, q1) \<and>
           dequeue_nodes_n (length arr) qe = Inr (ms, q2) \<and>
           dequeue_n (length arr) q = Inr (map data ns, q1) \<and>
           dequeue_n (length arr) qe = Inr (map data ms, q2) \<and>
           mset ns = mset arr \<and> mset ms = mset arr \<and>
           map priority ns = sort (map priority arr) \<and>
           map priority ms = sort (map priority arr) \<and>
           (distinct (map priority arr) \<longrightarrow> ns = ms)))"
proof -
  let ?n = "int (length arr)"
  let ?q0 = "PQ_create\<lparr>capacity := ?n, heap := malloc_slots ?n\<rparr>"
  have inv0: "pq_inv ?q0" by (rule pq_inv_heapify_init) simp
  have c0: "current_size ?q0 = 0" "capacity ?q0 = ?n" by (simp_all add: PQ_create_def)
  from enqueue_all_correct [OF inv0, of arr]
  obtain q where q: "enqueue_all arr ?q0 = Inr q" "pq_inv q"
    "current_size q = current_size ?q0 + ?n"
    "mset (live_nodes q) = mset arr + mset (live_nodes ?q0)"
    "current_size ?q0 + ?n \<le> capacity ?q0 \<longrightarrow> capacity q = capacity ?q0" by blast
  from q(3) c0 have cs: "current_size q = ?n" by simp
  from q(5) c0 have cap: "capacity q = ?n" by simp
  from q(2) cap have len: "length (heap q) = length arr" by (simp add: pq_inv_def wf_def)
  from q(4) c0 have ms: "mset (live_nodes q) = mset arr" by (simp add: live_nodes_empty)
  have h: "PQ_heapify arr ?n = Inr q" using q(1) by (simp add: PQ_heapify_enqueue_all)
  from extract_all_sorted [OF q(2), of "length arr"] cs
  obtain ns q1 where d: "dequeue_nodes_n (length arr) q = Inr (ns, q1)"
    "dequeue_n (length arr) q = Inr (map data ns, q1)"
    "mset ns = mset (live_nodes q)" "sorted (map priority ns)" by auto
  from d(3) ms have mns: "mset ns = mset arr" by simp
  have "\<forall>ys. mset ys = mset arr \<longrightarrow>
        (\<exists>qe ns ms q1 q2.
           enqueue_all ys PQ_create = Inr qe \<and>
           dequeue_nodes_n (length arr) q = Inr (ns, q1) \<and>
           dequeue_nodes_n (length arr) qe = Inr (ms, q2) \<and>
           dequeue_n (length arr) q = Inr (map data ns, q1) \<and>
           dequeue_n (length arr) qe = Inr (map data ms, q2) \<and>
           mset ns = mset arr \<and> mset ms = mset arr \<and>
           map priority ns = sort (map priority arr) \<and>
           map priority ms = sort (map priority arr) \<and>
           (distinct (map priority arr) \<longrightarrow> ns = ms))"
  proof (intro allI impI)
    fix ys assume ys: "mset ys = mset arr"
    then have ly: "length ys = length arr" by (rule mset_eq_length)
    from enqueue_all_correct [OF pq_inv_create, of ys]
    obtain qe where qe: "enqueue_all ys PQ_create = Inr qe" "pq_inv qe"
      "current_size qe = current_size PQ_create + int (length ys)"
      "mset (live_nodes qe) = mset ys + mset (live_nodes PQ_create)" by blast
    have e0: "current_size PQ_create = 0" by (simp add: PQ_create_def)
    with qe(3) ly have cse: "current_size qe = ?n" by simp
    from qe(4) e0 ys have mse: "mset (live_nodes qe) = mset arr" by (simp add: live_nodes_empty)
    from extract_all_sorted [OF qe(2), of "length arr"] cse
    obtain ms q2 where e: "dequeue_nodes_n (length arr) qe = Inr (ms, q2)"
      "dequeue_n (length arr) qe = Inr (map data ms, q2)"
      "mset ms = mset (live_nodes qe)" "sorted (map priority ms)" by auto
    from e(3) mse have mms: "mset ms = mset arr" by simp
    have "map priority ns = sort (map priority arr)"
      by (rule sorted_priorities_unique [OF d(4) mns])
    moreover have "map priority ms = sort (map priority arr)"
      by (rule sorted_priorities_unique [OF e(4) mms])
    moreover have "distinct (map priority arr) \<longrightarrow> ns = ms"
      using sorted_nodes_unique [OF d(4) mns e(4) mms] by blast
    ultimately show "\<exists>qe ns ms q1 q2.
           enqueue_all ys PQ_create = Inr qe \<and>
           dequeue_nodes_n (length arr) q = Inr (ns, q1) \<and>
           dequeue_nodes_n (length arr) qe = Inr (ms, q2) \<and>
           dequeue_n (length arr) q = Inr (map data ns, q1) \<and>
           dequeue_n (length arr) qe = Inr (map data ms, q2) \<and>
           mset ns = mset arr \<and> mset ms = mset arr \<and>
           map priority ns = sort (map priority arr) \<and>
           map priority ms = sort (map priority arr) \<and>
           (distinct (map priority arr) \<longrightarrow> ns = ms)"
      using qe(1) d(1,2) e(1,2) mns mms by blast
  qed
  with h q(1,2) cs cap len ms show ?thesis by blast
qed

theorem heapify_then_extract_witness:
  "\<exists>q qe (ns :: PQ_Node list) q1 q2.
     PQ_heapify [\<lparr>data = 1, priority = 2\<rparr>, \<lparr>data = 2, priority = 4\<rparr>,
                 \<lparr>data = 3, priority = 5\<rparr>, \<lparr>data = 4, priority = 8\<rparr>] 4 = Inr q \<and>
     capacity q = 4 \<and>
     enqueue_all [\<lparr>data = 4, priority = 8\<rparr>, \<lparr>data = 3, priority = 5\<rparr>,
                  \<lparr>data = 2, priority = 4\<rparr>, \<lparr>data = 1, priority = 2\<rparr>] PQ_create = Inr qe \<and>
     dequeue_n 4 q = Inr (map data ns, q1) \<and>
     dequeue_n 4 qe = Inr (map data ns, q2) \<and>
     map priority ns = [2, 4, 5, 8]"
proof -
  let ?arr = "[\<lparr>data = 1, priority = 2\<rparr>, \<lparr>data = 2, priority = 4\<rparr>,
               \<lparr>data = 3, priority = 5\<rparr>, \<lparr>data = 4, priority = 8\<rparr>]"
  let ?ys = "[\<lparr>data = 4, priority = 8\<rparr>, \<lparr>data = 3, priority = 5\<rparr>,
              \<lparr>data = 2, priority = 4\<rparr>, \<lparr>data = 1, priority = 2\<rparr>]"
  have l: "length ?arr = 4" "int (length ?arr) = 4" by simp_all
  have m: "mset ?ys = mset ?arr" by (simp add: add_mset_commute)
  have di: "distinct (map priority ?arr)" by simp
  have so: "sort (map priority ?arr) = [2, 4, 5, 8]" by code_simp
  from heapify_then_extract [of ?arr]
  obtain q where q: "PQ_heapify ?arr (int (length ?arr)) = Inr q"
    "capacity q = int (length ?arr)"
    "\<forall>ys. mset ys = mset ?arr \<longrightarrow>
        (\<exists>qe ns ms q1 q2.
           enqueue_all ys PQ_create = Inr qe \<and>
           dequeue_nodes_n (length ?arr) q = Inr (ns, q1) \<and>
           dequeue_nodes_n (length ?arr) qe = Inr (ms, q2) \<and>
           dequeue_n (length ?arr) q = Inr (map data ns, q1) \<and>
           dequeue_n (length ?arr) qe = Inr (map data ms, q2) \<and>
           mset ns = mset ?arr \<and> mset ms = mset ?arr \<and>
           map priority ns = sort (map priority ?arr) \<and>
           map priority ms = sort (map priority ?arr) \<and>
           (distinct (map priority ?arr) \<longrightarrow> ns = ms))" by blast
  from q(3) [rule_format, OF m]
  obtain qe and ns ms :: "PQ_Node list" and q1 q2
    where f: "enqueue_all ?ys PQ_create = Inr qe"
    "dequeue_n (length ?arr) q = Inr (map data ns, q1)"
    "dequeue_n (length ?arr) qe = Inr (map data ms, q2)"
    "map priority ns = sort (map priority ?arr)"
    "distinct (map priority ?arr) \<longrightarrow> ns = ms"
    by blast
  from f(5) di have "ns = ms" by blast
  with f have e: "enqueue_all ?ys PQ_create = Inr qe"
    "dequeue_n (length ?arr) q = Inr (map data ns, q1)"
    "dequeue_n (length ?arr) qe = Inr (map data ns, q2)"
    "map priority ns = sort (map priority ?arr)" by simp_all
  from q(1,2) e(2,3,4) have "PQ_heapify ?arr 4 = Inr q" "capacity q = 4"
    "dequeue_n 4 q = Inr (map data ns, q1)" "dequeue_n 4 qe = Inr (map data ns, q2)"
    "map priority ns = [2, 4, 5, 8]" unfolding l so by simp_all
  with e(1) have "PQ_heapify ?arr 4 = Inr q \<and> capacity q = 4 \<and>
     enqueue_all ?ys PQ_create = Inr qe \<and>
     dequeue_n 4 q = Inr (map data ns, q1) \<and>
     dequeue_n 4 qe = Inr (map data ns, q2) \<and>
     map priority ns = [2, 4, 5, 8]" by simp
  then show ?thesis by (intro exI)
qed

theorem heapify_ties_counterexample:
  "PQ_heapify [\<lparr>data = 1, priority = 0\<rparr>, \<lparr>data = 2, priority = 0\<rparr>] 2 =
     Inr \<lparr>current_size = 2, capacity = 2,
          heap = [Some \<lparr>data = 1, priority = 0\<rparr>, Some \<lparr>data = 2, priority = 0\<rparr>]\<rparr> \<and>
   dequeue_n 2 \<lparr>current_size = 2, capacity = 2,
          heap = [Some \<lparr>data = 1, priority = 0\<rparr>, Some \<lparr>data = 2, priority = 0\<rparr>]\<rparr> =
     Inr ([1, 2], \<lparr>current_size = 0, capacity = 2,
          heap = [Some \<lparr>data = 2, priority = 0\<rparr>, Some \<lparr>data = 2, priority = 0\<rparr>]\<rparr>) \<and>
   enqueue_all [\<lparr>data = 2, priority = 0\<rparr>, \<lparr>data = 1, priority = 0\<rparr>] PQ_create =
     Inr \<lparr>current_size = 2, capacity = 10,
          heap = [Some \<lparr>data = 2, priority = 0\<rparr>, Some \<lparr>data = 1, priority = 0\<rparr>,
                  None, None, None, None, None, None, None, None]\<rparr> \<and>
   dequeue_n 2 \<lparr>current_size = 2, capacity = 10,
          heap = [Some \<lparr>data = 2, priority = 0\<rparr>, Some \<lparr>data = 1, priority = 0\<rparr>,
                  None, None, None, None, None, None, None, None]\<rparr> =
     Inr ([2, 1], \<lparr>current_size = 0, capacity = 10,
          heap = [Some \<lparr>data = 1, priority = 0\<rparr>, Some \<lparr>data = 1, priority = 0\<rparr>,
                  None, None, None, None, None, None, None, None]\<rparr>)"
  by code_simp

text \<open>
  C8. \<open>PQ_enqueue\<close> works on the queue that \<open>_check_size\<close> returns. On a well-formed
  queue with \<open>current_size + 1 > capacity\<close>, \<open>_check_size\<close> enlarges the block by exactly
  \<open>PQ_INCREMENT_SIZE = 10\<close> slots, raises \<open>capacity\<close> by 10 and keeps
  \<open>current_size\<close> and every slot of the old block at its index; otherwise it returns the
  queue unchanged. Enqueuing any list \<open>xs\<close> of nodes, of whatever length (so also 30, more
  than the initial capacity 10), into a fresh queue therefore succeeds and yields a well-formed,
  heap-ordered queue holding \<open>length xs\<close> elements, and dequeuing \<open>length xs\<close> times
  returns the payloads of all the elements of \<open>xs\<close>, in order of priority.
\<close>

theorem growth_preserves_queue:
  "PQ_enqueue q d p = PQ_enqueue (check_size q) d p \<and>
   (wf q \<and> current_size q + 1 > capacity q \<longrightarrow>
      PQ_INCREMENT_SIZE = 10 \<and>
      capacity (check_size q) = capacity q + PQ_INCREMENT_SIZE \<and>
      length (heap (check_size q)) = length (heap q) + 10 \<and>
      current_size (check_size q) = current_size q \<and>
      take (length (heap q)) (heap (check_size q)) = heap q) \<and>
   (\<not> current_size q + 1 > capacity q \<longrightarrow> check_size q = q) \<and>
   (\<exists>qn ns q'. enqueue_all xs PQ_create = Inr qn \<and> pq_inv qn \<and>
      current_size qn = int (length xs) \<and> int (length xs) \<le> capacity qn \<and>
      dequeue_n (length xs) qn = Inr (map data ns, q') \<and> current_size q' = 0 \<and>
      mset ns = mset xs \<and> sorted (map priority ns))"
proof -
  have a: "PQ_enqueue q d p = PQ_enqueue (check_size q) d p"
    by (simp add: PQ_enqueue_def check_size_idem)
  have b: "wf q \<and> current_size q + 1 > capacity q \<longrightarrow>
      PQ_INCREMENT_SIZE = 10 \<and>
      capacity (check_size q) = capacity q + PQ_INCREMENT_SIZE \<and>
      length (heap (check_size q)) = length (heap q) + 10 \<and>
      current_size (check_size q) = current_size q \<and>
      take (length (heap q)) (heap (check_size q)) = heap q"
  proof
    assume h: "wf q \<and> current_size q + 1 > capacity q"
    then have w: "wf q" ..
    from check_size_wf(1,2,3) [OF w] h show "PQ_INCREMENT_SIZE = 10 \<and>
      capacity (check_size q) = capacity q + PQ_INCREMENT_SIZE \<and>
      length (heap (check_size q)) = length (heap q) + 10 \<and>
      current_size (check_size q) = current_size q \<and>
      take (length (heap q)) (heap (check_size q)) = heap q"
      by (simp add: PQ_INCREMENT_SIZE_def)
  qed
  have c: "\<not> current_size q + 1 > capacity q \<longrightarrow> check_size q = q"
    by (simp add: check_size_def)
  from enqueue_all_correct [OF pq_inv_create, of xs]
  obtain qn where qn: "enqueue_all xs PQ_create = Inr qn" "pq_inv qn"
    "current_size qn = current_size PQ_create + int (length xs)"
    "mset (live_nodes qn) = mset xs + mset (live_nodes PQ_create)" by blast
  have c0: "current_size PQ_create = 0" by (simp add: PQ_create_def)
  with qn(3) have cs: "current_size qn = int (length xs)" by simp
  from qn(4) c0 have ms: "mset (live_nodes qn) = mset xs" by (simp add: live_nodes_empty)
  from qn(2) cs have cap: "int (length xs) \<le> capacity qn" by (simp add: pq_inv_def wf_def)
  from extract_all_sorted [OF qn(2), of "length xs"] cs
  obtain ns q' where d: "dequeue_n (length xs) qn = Inr (map data ns, q')" "current_size q' = 0"
    "mset ns = mset (live_nodes qn)" "sorted (map priority ns)" by auto
  from qn(1,2) cs cap d ms
  have "\<exists>qn ns q'. enqueue_all xs PQ_create = Inr qn \<and> pq_inv qn \<and>
      current_size qn = int (length xs) \<and> int (length xs) \<le> capacity qn \<and>
      dequeue_n (length xs) qn = Inr (map data ns, q') \<and> current_size q' = 0 \<and>
      mset ns = mset xs \<and> sorted (map priority ns)" by auto
  with a b c show ?thesis by blast
qed

theorem growth_preserves_queue_witness:
  "wf \<lparr>current_size = 2, capacity = 2,
      heap = [Some \<lparr>data = 1, priority = 0\<rparr>, Some \<lparr>data = 2, priority = 0\<rparr>]\<rparr> \<and>
   capacity (check_size \<lparr>current_size = 2, capacity = 2,
      heap = [Some \<lparr>data = 1, priority = 0\<rparr>, Some \<lparr>data = 2, priority = 0\<rparr>]\<rparr>) = 12 \<and>
   length (heap (check_size \<lparr>current_size = 2, capacity = 2,
      heap = [Some \<lparr>data = 1, priority = 0\<rparr>, Some \<lparr>data = 2, priority = 0\<rparr>]\<rparr>)) = 12 \<and>
   take 2 (heap (check_size \<lparr>current_size = 2, capacity = 2,
      heap = [Some \<lparr>data = 1, priority = 0\<rparr>, Some \<lparr>data = 2, priority = 0\<rparr>]\<rparr>)) =
     [Some \<lparr>data = 1, priority = 0\<rparr>, Some \<lparr>data = 2, priority = 0\<rparr>] \<and>
   check_size PQ_create = PQ_create \<and>
   length (map (\<lambda>i. \<lparr>data = i, priority = 7 * i mod 31\<rparr>) [0..29]) = 30 \<and>
   (\<exists>qn ns q'.
      enqueue_all (map (\<lambda>i. \<lparr>data = i, priority = 7 * i mod 31\<rparr>) [0..29]) PQ_create = Inr qn \<and>
      current_size qn = 30 \<and> 30 \<le> capacity qn \<and>
      dequeue_n 30 qn = Inr (map data ns, q') \<and>
      mset ns = mset (map (\<lambda>i. \<lparr>data = i, priority = 7 * i mod 31\<rparr>) [0..29]) \<and>
      sorted (map priority ns))"
proof -
  let ?q = "\<lparr>current_size = 2, capacity = 2,
      heap = [Some \<lparr>data = 1, priority = 0\<rparr>, Some \<lparr>data = 2, priority = 0\<rparr>]\<rparr>"
  let ?xs = "map (\<lambda>i. \<lparr>data = i, priority = 7 * i mod 31\<rparr>) [0..29]"
  have w: "wf ?q" by code_simp
  have g: "current_size ?q + 1 > capacity ?q" by simp
  have n: "\<not> current_size PQ_create + 1 > capacity PQ_create"
    by (simp add: PQ_create_def PQ_INITIAL_SIZE_def)
  have l: "length ?xs = 30" by simp
  from growth_preserves_queue [of PQ_create 0 0 ?xs] n
  have c: "check_size PQ_create = PQ_create" by blast
  from growth_preserves_queue [of ?q 0 0 ?xs] w g
  have k: "capacity (check_size ?q) = capacity ?q + PQ_INCREMENT_SIZE"
    "PQ_INCREMENT_SIZE = 10"
    "length (heap (check_size ?q)) = length (heap ?q) + 10"
    "take (length (heap ?q)) (heap (check_size ?q)) = heap ?q" by blast+
  from k have k': "capacity (check_size ?q) = 12" "length (heap (check_size ?q)) = 12"
    "take 2 (heap (check_size ?q)) =
       [Some \<lparr>data = 1, priority = 0\<rparr>, Some \<lparr>data = 2, priority = 0\<rparr>]"
    by (simp_all add: numeral_2_eq_2)
  from growth_preserves_queue [of ?q 0 0 ?xs]
  obtain qn ns q' where e: "enqueue_all ?xs PQ_create = Inr qn"
      "current_size qn = int (length ?xs)" "int (length ?xs) \<le> capacity qn"
      "dequeue_n (length ?xs) qn = Inr (map data ns, q')"
      "mset ns = mset ?xs" "sorted (map priority ns)" by blast
  from e(2,3,4) have "current_size qn = 30" "30 \<le> capacity qn"
    "dequeue_n 30 qn = Inr (map data ns, q')" unfolding l by simp_all
  with e(1,5,6) w k' c l show ?thesis by blast
qed

text \<open>
  C9. Every queue produced by \<open>PQ_create\<close>, \<open>PQ_heapify\<close> (with \<open>size >= 0\<close>),
  \<open>PQ_enqueue\<close> and \<open>PQ_dequeue\<close> (with \<open>current_size > 0\<close>) has
  \<open>0 <= current_size <= capacity\<close>. So the test \<open>current_size + 1 > capacity\<close> of
  \<open>_check_size\<close> succeeds only when \<open>current_size = capacity\<close>, \<open>_check_size\<close>
  changes neither \<open>current_size\<close> nor the live elements, and \<open>PQ_enqueue\<close> returns with
  \<open>current_size\<close> increased by exactly one.
\<close>

theorem count_within_capacity:
  assumes "reachable_h q"
  shows "0 \<le> current_size q \<and> current_size q \<le> capacity q \<and>
         (current_size q + 1 > capacity q \<longrightarrow> current_size q = capacity q) \<and>
         current_size (check_size q) = current_size q \<and>
         live_nodes (check_size q) = live_nodes q \<and>
         (\<forall>d p. \<exists>q'. PQ_enqueue q d p = Inr q' \<and> current_size q' = current_size q + 1)"
proof -
  from reachable_h_pq_inv [OF assms] have inv: "pq_inv q" .
  then have w: "wf q" by (simp add: pq_inv_def)
  then have b: "0 \<le> current_size q" "current_size q \<le> capacity q" by (simp_all add: wf_def)
  then have "current_size q + 1 > capacity q \<longrightarrow> current_size q = capacity q" by simp
  moreover have "\<forall>d p. \<exists>q'. PQ_enqueue q d p = Inr q' \<and> current_size q' = current_size q + 1"
    using PQ_enqueue_correct [OF inv] by blast
  ultimately show ?thesis using b check_size_wf(1) [OF w] live_nodes_check_size [OF w] by blast
qed

theorem count_within_capacity_witness:
  "reachable_h \<lparr>current_size = 2, capacity = 2,
      heap = [Some \<lparr>data = 1, priority = 0\<rparr>, Some \<lparr>data = 2, priority = 0\<rparr>]\<rparr> \<and>
   current_size (check_size \<lparr>current_size = 2, capacity = 2,
      heap = [Some \<lparr>data = 1, priority = 0\<rparr>, Some \<lparr>data = 2, priority = 0\<rparr>]\<rparr>) = 2 \<and>
   capacity (check_size \<lparr>current_size = 2, capacity = 2,
      heap = [Some \<lparr>data = 1, priority = 0\<rparr>, Some \<lparr>data = 2, priority = 0\<rparr>]\<rparr>) = 12 \<and>
   (\<exists>q'. PQ_enqueue \<lparr>current_size = 2, capacity = 2,
      heap = [Some \<lparr>data = 1, priority = 0\<rparr>, Some \<lparr>data = 2, priority = 0\<rparr>]\<rparr> 7 7 = Inr q' \<and>
      current_size q' = 3)"
proof -
  let ?q = "\<lparr>current_size = 2, capacity = 2,
      heap = [Some \<lparr>data = 1, priority = 0\<rparr>, Some \<lparr>data = 2, priority = 0\<rparr>]\<rparr>"
  have h: "PQ_heapify [\<lparr>data = 1, priority = 0\<rparr>, \<lparr>data = 2, priority = 0\<rparr>] 2 = Inr ?q"
    by code_simp
  have r: "reachable_h ?q" by (rule reachable_h.heapify [OF _ h]) simp
  have c: "capacity (check_size ?q) = 12" by code_simp
  from count_within_capacity [OF r] r c show ?thesis by simp
qed

text \<open>
  C10. Let \<open>q\<close> be well formed with \<open>current_size > 0\<close>. On the queue that
  \<open>_PQ_dequeue\<close> hands to sift-down (the last live element copied into slot 0,
  \<open>current_size\<close> decremented to \<open>n\<close>), \<open>_shift_down\<close> as written, with the guards
  \<open>child <= n\<close>, and the variant with the guards \<open>child <= n - 1\<close> both return, and
  return the same queue; \<open>_PQ_dequeue\<close> returns that queue. This holds for every
  \<open>n >= 0\<close>, so in particular for \<open>n >= 1\<close>.
\<close>

theorem shift_down_guard_equivalence:
  assumes "wf q" "0 < current_size q"
  shows "\<exists>n q'. PQ_dequeue_node q = Inr (n, q') \<and>
           shift_down 0 (q\<lparr>heap := (heap q)[0 := heap q ! nat (current_size q - 1)],
                           current_size := current_size q - 1\<rparr>) = Inr q' \<and>
           shift_down_strict 0 (q\<lparr>heap := (heap q)[0 := heap q ! nat (current_size q - 1)],
                                  current_size := current_size q - 1\<rparr>) = Inr q'"
proof -
  let ?n = "current_size q"
  let ?m = "?n - 1"
  define q1 where "q1 = q\<lparr>heap := (heap q)[0 := heap q ! nat ?m], current_size := ?m\<rparr>"
  from assms have ini: "initialised q ?n" by (simp add: wf_def)
  from initialisedD [OF ini, of 0] assms(2) obtain r where r: "rd q 0 = Inr r" by auto
  from initialisedD [OF ini, of ?m] assms(2) obtain l where l: "rd q ?m = Inr l" by auto
  from r have len0: "0 < int (length (heap q))" by (auto simp: rd_Inr_iff)
  from l assms(2) have hm: "heap q ! nat ?m = Some l" by (simp add: rd_Inr_iff)
  have wr: "wr q 0 l = Inr (q\<lparr>heap := (heap q)[0 := Some l]\<rparr>)"
    using wr_Inr [of 0 q l] len0 by simp
  have rd1: "rd q1 k = (if k = 0 then Inr l else rd q k)" for k
    using rd_heap_update [of 0 q l k] len0 by (simp add: hm q1_def)
  have cs1: "current_size q1 = ?m" by (simp add: q1_def)
  have deq: "PQ_dequeue_node q =
               (case shift_down 0 q1 of Inl e \<Rightarrow> Inl e | Inr q2 \<Rightarrow> Inr (r, q2))"
    by (simp add: PQ_dequeue_node_def r l wr hm q1_def)
  have "\<exists>q'. shift_down 0 q1 = Inr q' \<and> shift_down_strict 0 q1 = Inr q'"
  proof (cases "?m = 0")
    case True
    have "shift_down 0 q1 = Inr q1"
      by (rule shift_down_leaf [of _ _ l]) (simp_all add: rd1 cs1 True left_child_def)
    moreover have "shift_down_strict 0 q1 = Inr q1"
      using shift_down_strict_step [of q1 0 l] True
      by (simp add: rd1 cs1 left_child_def right_child_def del: shift_down_strict.simps)
    ultimately show ?thesis by blast
  next
    case False
    with assms(2) have m: "0 < ?m" by simp
    have i1: "initialised q1 (?m + 1)"
      unfolding initialised_def
    proof
      fix i assume "i \<in> {0..<?m + 1}"
      then have "0 \<le> i" "i < ?n" by auto
      from initialisedD [OF ini this] show "\<not> isl (rd q1 i)" by (auto simp: rd1)
    qed
    have eq: "slot_prio q1 ?m = slot_prio q1 0"
      using m l by (simp add: slot_prio_def rd1)
    from shift_down_eq_strict [OF cs1 i1 _ m eq] show ?thesis
      by (simp del: shift_down_strict.simps)
  qed
  with deq show ?thesis unfolding q1_def by (auto simp del: shift_down_strict.simps)
qed

theorem shift_down_guard_equivalence_witness:
  "wf \<lparr>current_size = 3, capacity = 3,
      heap = [Some \<lparr>data = 40, priority = 1\<rparr>, Some \<lparr>data = 10, priority = 5\<rparr>,
              Some \<lparr>data = 20, priority = 3\<rparr>]\<rparr> \<and>
   shift_down_strict 0 \<lparr>current_size = 2, capacity = 3,
      heap = [Some \<lparr>data = 20, priority = 3\<rparr>, Some \<lparr>data = 10, priority = 5\<rparr>,
              Some \<lparr>data = 20, priority = 3\<rparr>]\<rparr> =
   shift_down 0 \<lparr>current_size = 2, capacity = 3,
      heap = [Some \<lparr>data = 20, priority = 3\<rparr>, Some \<lparr>data = 10, priority = 5\<rparr>,
              Some \<lparr>data = 20, priority = 3\<rparr>]\<rparr>"
proof -
  let ?q = "\<lparr>current_size = 3, capacity = 3,
      heap = [Some \<lparr>data = 40, priority = 1\<rparr>, Some \<lparr>data = 10, priority = 5\<rparr>,
              Some \<lparr>data = 20, priority = 3\<rparr>]\<rparr>"
  have w: "wf ?q" by code_simp
  have pos: "0 < current_size ?q" by simp
  from shift_down_guard_equivalence [OF w pos] w show ?thesis
    by (auto simp del: shift_down_strict.simps)
qed

end
